theory Spec2Isabelle
  imports Complex_Main
begin

section \<open>Strings and character classes\<close>

text \<open>
  A JavaScript string is a sequence of UTF-16 code units. The model is \<^typ>\<open>string\<close>: every
  \<^typ>\<open>char\<close> stands for the code unit of the same number, so the strings of the model are the
  JavaScript strings whose code units are below 256. JavaScript numbers are modelled by
  \<^typ>\<open>real\<close> (exact arithmetic, no rounding).
\<close>

definition inRange :: "nat \<Rightarrow> nat \<Rightarrow> char \<Rightarrow> bool" where
  "inRange lo hi c = (lo \<le> of_char c \<and> (of_char c :: nat) \<le> hi)"

definition isDigit :: "char \<Rightarrow> bool" where
  \<comment> \<open>the class \<open>\d\<close>\<close>
  "isDigit c = inRange 48 57 c"

definition isLower :: "char \<Rightarrow> bool" where
  "isLower c = inRange 97 122 c"

definition isUpper :: "char \<Rightarrow> bool" where
  "isUpper c = inRange 65 90 c"

definition isWord :: "char \<Rightarrow> bool" where
  \<comment> \<open>the class \<open>\w\<close>, that is \<open>[A-Za-z0-9_]\<close>\<close>
  "isWord c = (isDigit c \<or> isLower c \<or> isUpper c \<or> c = CHR ''_'')"

definition isSpace :: "char \<Rightarrow> bool" where
  \<comment> \<open>the class \<open>\s\<close> below 256: tab, line feed, vertical tab, form feed, carriage return,
      space and the no-break space\<close>
  "isSpace c = (inRange 9 13 c \<or> of_char c = (32::nat) \<or> of_char c = (160::nat))"

definition isHex :: "char \<Rightarrow> bool" where
  \<comment> \<open>\<open>[0-9a-f]\<close> under the flag \<open>i\<close>\<close>
  "isHex c = (isDigit c \<or> inRange 97 102 c \<or> inRange 65 70 c)"

definition isVersion :: "char \<Rightarrow> bool" where
  \<comment> \<open>\<open>[1-5]\<close>\<close>
  "isVersion c = inRange 49 53 c"

definition isVariant :: "char \<Rightarrow> bool" where
  \<comment> \<open>\<open>[89ab]\<close> under the flag \<open>i\<close>\<close>
  "isVariant c = (inRange 56 57 c \<or> inRange 97 98 c \<or> inRange 65 66 c)"

definition isDash :: "char \<Rightarrow> bool" where
  "isDash c = (c = CHR ''-'')"

definition isQuote :: "char \<Rightarrow> bool" where
  "isQuote c = (c = CHR 0x22)"

definition lowerAscii :: "char \<Rightarrow> char" where
  \<comment> \<open>case folding of a pattern under the flag \<open>i\<close>: below 256 only \<open>A-Z\<close> fold onto ASCII\<close>
  "lowerAscii c = (if isUpper c then char_of (of_char c + (32::nat)) else c)"

definition toLowerCase :: "string \<Rightarrow> string" where
  \<comment> \<open>\<open>String.prototype.toLowerCase\<close> on code units below 256: \<open>A-Z\<close> and the
      capital letters \<open>0xC0-0xDE\<close> (all but the multiplication sign \<open>0xD7\<close>) move up by 32\<close>
  "toLowerCase s =
     map (\<lambda>c. if isUpper c \<or> (inRange 192 222 c \<and> of_char c \<noteq> (215::nat))
               then char_of (of_char c + (32::nat)) else c) s"

section \<open>Response normalizer: \<open>redactVolatile\<close>\<close>

text \<open>
  \<open>text.replace(/\b\d{13,}\b/g, "<num>")\<close>. The scanner walks the text from the left;
  \<open>prev\<close> says that the code unit before the current position is a word character.
  A match starts where \<open>\b\<close> holds before a digit (\<open>prev\<close> is false), takes the whole run of
  digits (a shorter run ends before a digit, where \<open>\b\<close> fails), needs 13 of them and
  \<open>\b\<close> behind the run: the end of the text or a non-word character.
\<close>

definition numAt :: "bool \<Rightarrow> string \<Rightarrow> bool" where
  "numAt prev s =
     (\<not> prev \<and> 13 \<le> length (takeWhile isDigit s) \<and>
      (case dropWhile isDigit s of [] \<Rightarrow> True | c # _ \<Rightarrow> \<not> isWord c))"

function numScan :: "bool \<Rightarrow> string \<Rightarrow> string" where
  "numScan prev [] = []"
| "numScan prev (c # cs) =
     (if numAt prev (c # cs)
      then ''<num>'' @ numScan True (dropWhile isDigit (c # cs))
      else c # numScan (isWord c) cs)"
  by pat_completeness auto
termination
proof (relation "measure (\<lambda>(prev, s). length s)")
  fix prev :: bool and c :: char and cs :: string
  assume "numAt prev (c # cs)"
  then have "isDigit c"
    by (cases "isDigit c") (simp_all add: numAt_def)
  then have "length (dropWhile isDigit (c # cs)) \<le> length cs"
    by (simp add: length_dropWhile_le)
  then show "((True, dropWhile isDigit (c # cs)), prev, c # cs) \<in> measure (\<lambda>(prev, s). length s)"
    by simp
qed simp_all

text \<open>
  \<open>.replace(/\b[0-9a-f]{8}-[0-9a-f]{4}-[1-5][0-9a-f]{3}-[89ab][0-9a-f]{3}-[0-9a-f]{12}\b/gi,
  "<uuid>")\<close>: 36 code units of the shape 8-4-4-4-12 between two word boundaries.
\<close>

definition uuidPattern :: "(char \<Rightarrow> bool) list" where
  "uuidPattern =
     replicate 8 isHex @ [isDash] @ replicate 4 isHex @ [isDash] @
     [isVersion] @ replicate 3 isHex @ [isDash] @
     [isVariant] @ replicate 3 isHex @ [isDash] @ replicate 12 isHex"

definition uuidAt :: "bool \<Rightarrow> string \<Rightarrow> bool" where
  "uuidAt prev s =
     (\<not> prev \<and> 36 \<le> length s \<and> list_all2 (\<lambda>p c. p c) uuidPattern (take 36 s) \<and>
      (case drop 36 s of [] \<Rightarrow> True | c # _ \<Rightarrow> \<not> isWord c))"

function uuidScan :: "bool \<Rightarrow> string \<Rightarrow> string" where
  "uuidScan prev [] = []"
| "uuidScan prev (c # cs) =
     (if uuidAt prev (c # cs)
      then ''<uuid>'' @ uuidScan True (drop 36 (c # cs))
      else c # uuidScan (isWord c) cs)"
  by pat_completeness auto
termination
  by (relation "measure (\<lambda>(prev, s). length s)") (simp_all add: uuidAt_def)

text \<open>
  \<open>.replace(/"(created|updated|timestamp|ts|date)"\s*:\s*"[^"]+"/gi, '"$1":"<ts>"')\<close>.
  \<open>tsAt s\<close> is the match at the start of \<open>s\<close>: the key as it is written in the text and
  the text behind the match. The key is the text between the first two quotes; the value
  \<open>[^"]+\<close> runs up to the next quote, which must exist, and is not empty.
\<close>

definition tsKeys :: "string list" where
  "tsKeys = [''created'', ''updated'', ''timestamp'', ''ts'', ''date'']"

definition tsAt :: "string \<Rightarrow> (string \<times> string) option" where
  "tsAt s =
     (case s of
        [] \<Rightarrow> None
      | q # s1 \<Rightarrow>
          if \<not> isQuote q \<or> map lowerAscii (takeWhile (\<lambda>c. \<not> isQuote c) s1) \<notin> set tsKeys then None
          else
            (case dropWhile (\<lambda>c. \<not> isQuote c) s1 of
               [] \<Rightarrow> None
             | _ # s2 \<Rightarrow>
                 (case dropWhile isSpace s2 of
                    [] \<Rightarrow> None
                  | colon # s3 \<Rightarrow>
                      if colon \<noteq> CHR '':'' then None
                      else
                        (case dropWhile isSpace s3 of
                           [] \<Rightarrow> None
                         | q2 # s4 \<Rightarrow>
                             if \<not> isQuote q2 \<or> takeWhile (\<lambda>c. \<not> isQuote c) s4 = [] then None
                             else
                               (case dropWhile (\<lambda>c. \<not> isQuote c) s4 of
                                  [] \<Rightarrow> None
                                | _ # rest \<Rightarrow>
                                    Some (takeWhile (\<lambda>c. \<not> isQuote c) s1, rest))))))"

lemma tsAt_shorter: "tsAt s = Some (k, rest) \<Longrightarrow> length rest < length s"
proof -
  have dw: "\<And>P (xs :: string) y ys. dropWhile P xs = y # ys \<Longrightarrow> length ys < length xs"
    by (metis length_dropWhile_le length_Cons less_Suc_eq_le not_less)
  assume "tsAt s = Some (k, rest)"
  then obtain q s1 s2 s3 s4 c1 c2 c3 c4 where
    "s = q # s1" "dropWhile (\<lambda>c. \<not> isQuote c) s1 = c1 # s2"
    "dropWhile isSpace s2 = c2 # s3" "dropWhile isSpace s3 = c3 # s4"
    "dropWhile (\<lambda>c. \<not> isQuote c) s4 = c4 # rest"
    by (auto simp: tsAt_def split: list.splits if_splits)
  then show ?thesis
    using dw[of "\<lambda>c. \<not> isQuote c" s1 c1 s2] dw[of isSpace s2 c2 s3] dw[of isSpace s3 c3 s4]
      dw[of "\<lambda>c. \<not> isQuote c" s4 c4 rest]
    by simp
qed

function tsScan :: "string \<Rightarrow> string" where
  "tsScan [] = []"
| "tsScan (c # cs) =
     (case tsAt (c # cs) of
        Some (k, rest) \<Rightarrow> [CHR 0x22] @ k @ [CHR 0x22] @ '':'' @ [CHR 0x22] @ ''<ts>'' @ [CHR 0x22] @ tsScan rest
      | None \<Rightarrow> c # tsScan cs)"
  by pat_completeness auto
termination
  by (relation "measure length") (auto dest: tsAt_shorter)

definition redactVolatile :: "string \<Rightarrow> string" where
  "redactVolatile text = tsScan (uuidScan False (numScan False text))"

section \<open>Similarity scorer\<close>

definition isTokenChar :: "char \<Rightarrow> bool" where
  \<comment> \<open>the class \<open>[a-z0-9_\-]\<close>\<close>
  "isTokenChar c = (isLower c \<or> isDigit c \<or> c = CHR ''_'' \<or> c = CHR ''-'')"

text \<open>\<open>.replace(/[^a-z0-9_\-]+/g, ' ')\<close>: every maximal run of other characters becomes one space.\<close>

function squash :: "string \<Rightarrow> string" where
  "squash [] = []"
| "squash (c # cs) =
     (if isTokenChar c then c # squash cs
      else CHR '' '' # squash (dropWhile (\<lambda>x. \<not> isTokenChar x) cs))"
  by pat_completeness auto
termination
  by (relation "measure length") (simp_all add: length_dropWhile_le less_Suc_eq_le)

text \<open>
  \<open>.split(/\s+/)\<close>: the pieces between the maximal runs of white space, the empty piece
  before a leading run and behind a trailing run included; the empty text gives one empty piece.
\<close>

function splitWs :: "string \<Rightarrow> string list" where
  "splitWs s =
     (case dropWhile (\<lambda>c. \<not> isSpace c) s of
        [] \<Rightarrow> [s]
      | r # rs \<Rightarrow> takeWhile (\<lambda>c. \<not> isSpace c) s # splitWs (dropWhile isSpace rs))"
  by pat_completeness auto
termination
proof (relation "measure length")
  fix s :: string and r rs
  assume "dropWhile (\<lambda>c. \<not> isSpace c) s = r # rs"
  then have "length rs < length s"
    by (metis length_dropWhile_le length_Cons less_Suc_eq_le not_less)
  moreover have "length (dropWhile isSpace rs) \<le> length rs"
    by (rule length_dropWhile_le)
  ultimately show "(dropWhile isSpace rs, s) \<in> measure length"
    by simp
qed simp

definition tokenSet :: "string \<Rightarrow> string set" where
  "tokenSet text = set (filter (\<lambda>t. t \<noteq> []) (splitWs (squash (toLowerCase text))))"

definition jaccard :: "string set \<Rightarrow> string set \<Rightarrow> real" where
  "jaccard a b =
     (let inter = {x \<in> a. x \<in> b}; uni = a \<union> b
      in if card uni \<noteq> 0 then real (card inter) / real (card uni) else 0)"

text \<open>
  \<open>distance\<close> of the package fastest-levenshtein, imported as \<open>levenshteinDistance\<close>: the
  package is not part of the repository; it computes the Levenshtein edit distance of the
  two sequences of code units, which is defined here by its recurrence.
\<close>

fun levenshteinDistance :: "string \<Rightarrow> string \<Rightarrow> nat" where
  "levenshteinDistance [] ys = length ys"
| "levenshteinDistance (x # xs) [] = Suc (length xs)"
| "levenshteinDistance (x # xs) (y # ys) =
     min (min (Suc (levenshteinDistance xs (y # ys))) (Suc (levenshteinDistance (x # xs) ys)))
         (levenshteinDistance xs ys + (if x = y then 0 else 1))"

definition similarity :: "string \<Rightarrow> string \<Rightarrow> real" where
  "similarity aRaw bRaw =
     (let a = redactVolatile aRaw;
          b = redactVolatile bRaw;
          ta = tokenSet a;
          tb = tokenSet b;
          j = jaccard ta tb;
          lev = 1 - min 1 (real (levenshteinDistance a b) / real (max (max (length a) (length b)) 1))
      in j * (6 / 10) + lev * (4 / 10))"

section \<open>Platform and data model\<close>

text \<open>
  The scan engine calls functions of the JavaScript platform that are not part of the
  repository. They are parameters of the model: \<open>new URL(s)\<close> (\<open>None\<close> when it throws a
  \<open>TypeError\<close>), \<open>url.searchParams.set\<close> and \<open>url.toString()\<close>; \<open>new Headers(init)\<close> and
  \<open>headers.set(name, value)\<close> (\<open>None\<close> when the name or the value is refused with a
  \<open>TypeError\<close>); \<open>JSON.stringify(JSON.parse(t))\<close> (\<open>None\<close> when \<open>JSON.parse\<close> throws); and the
  text of the members that every object inherits from \<open>Object.prototype\<close>, which the
  lookup \<open>vars[k]\<close> of \<open>applyTemplate\<close> can reach.
\<close>

datatype js_error = SyntaxError | TypeError | RangeError

record ('u, 'h) platform =
  newURL :: "string \<Rightarrow> 'u option"
  searchParamsSet :: "'u \<Rightarrow> string \<Rightarrow> string \<Rightarrow> 'u"
  urlToString :: "'u \<Rightarrow> string"
  newHeaders :: "(string \<times> string) list \<Rightarrow> 'h option"
  headersSet :: "'h \<Rightarrow> string \<Rightarrow> string \<Rightarrow> 'h option"
  jsonRoundTrip :: "string \<Rightarrow> string option"
  prototypeMember :: "string \<Rightarrow> string option"

text \<open>A parsed JSON value: the result of \<open>req.json()\<close>. An object lists its own keys in order.\<close>

datatype json =
  JNull | JBool bool | JNum real | JStr string | JArr "json list" | JObj "(string \<times> json) list"

datatype http_method = GET | POST_method | PUT | PATCH | DELETE

record param_def =
  name :: string
  samples :: "string list"

record endpoint_spec =
  epMethod :: http_method
  pathTemplate :: string
  pathParams :: "param_def list"
  queryParams :: "param_def list option"
  bodyTemplate :: "json option"

record auth_context =
  headers :: "(string \<times> string) list option"
  cookies :: "(string \<times> string) list option"

record auth_contexts =
  victim :: auth_context
  attacker :: "auth_context option"
  unauthenticated :: "bool option"

record scan_request =
  baseUrl :: string
  endpoints :: "endpoint_spec list"
  authContexts :: auth_contexts
  speedGateThreshold :: real
  maxConcurrency :: real
  timeoutMs :: real

datatype AuthCtxName = Victim | Attacker | Unauthenticated

text \<open>
  One call of \<open>timedFetch\<close>: the identity it is made for, the URL, the method, the headers
  of the request options (\<open>None\<close> when the options carry none) and the timeout.
\<close>

record 'h request =
  who :: AuthCtxName
  url :: string
  reqMethod :: http_method
  reqHeaders :: "'h option"
  timeout :: real

text \<open>
  What the network answers to one call. \<open>FetchFailed\<close>: \<open>timedFetch\<close> throws (transport
  error, or the abort at the timeout). \<open>Response st body\<close>: a response with status \<open>st\<close>;
  \<open>body\<close> is \<open>None\<close> when reading the text of the response throws.
\<close>

datatype fetch_result = FetchFailed | Response nat "string option"

text \<open>
  The evidence strings of a finding, by their kind. The similarity is carried as the
  percentage \<open>sim * 100\<close> that the source prints with one decimal.
\<close>

datatype evidence =
  SimilarityVictimAttacker real | VictimIdPresent string | SimilarityVictimUnauth real

text \<open>A finding. Its field \<open>id\<close>, a random \<open>uuidv4()\<close>, is left out.\<close>

record finding =
  endpoint :: string
  findingMethod :: http_method
  attackVector :: string
  statusVictim :: nat
  statusAttacker :: nat
  confidence :: real
  evidence :: "evidence list"

text \<open>The state the jobs share: the list \<open>findings\<close>, and the calls of \<open>timedFetch\<close> made so far.\<close>

record 'h world =
  findings :: "finding list"
  requests :: "'h request list"


section \<open>Request validation: \<open>ScanRequestSchema.safeParse\<close>\<close>

text \<open>
  The schemas of the source, read with the rules of the library zod, which is not part of
  the repository: a schema checks the type of its input first; an object schema checks every
  key of its shape (a missing key is \<open>undefined\<close>, here \<open>None\<close>) and an array schema every
  element, and all their issues are collected; \<open>default\<close> replaces \<open>undefined\<close>, \<open>optional\<close>
  accepts it; the bounds \<open>min\<close> and \<open>max\<close> are inclusive and both are checked. An issue is the
  path of the value and the code of the violation.
\<close>

datatype seg = Key string | Index nat

datatype issue_code =
  invalid_type | invalid_enum_value | too_small | too_big | invalid_string | invalid_union

type_synonym issue = "seg list \<times> issue_code"

definition errs :: "issue list + 'a \<Rightarrow> issue list" where
  "errs r = (case r of Inl is \<Rightarrow> is | Inr _ \<Rightarrow> [])"

definition oks :: "(issue list + 'a) list \<Rightarrow> 'a list" where
  "oks rs = concat (map (\<lambda>r. case r of Inl _ \<Rightarrow> [] | Inr a \<Rightarrow> [a]) rs)"

definition zString :: "seg list \<Rightarrow> json option \<Rightarrow> issue list + string" where
  \<comment> \<open>\<open>z.string()\<close>\<close>
  "zString p v = (case v of Some (JStr s) \<Rightarrow> Inr s | _ \<Rightarrow> Inl [(p, invalid_type)])"

definition zUrl :: "('u, 'h) platform \<Rightarrow> seg list \<Rightarrow> json option \<Rightarrow> issue list + string" where
  \<comment> \<open>\<open>z.string().url()\<close>: a string that \<open>new URL\<close> accepts\<close>
  "zUrl pf p v =
     (case v of
        Some (JStr s) \<Rightarrow> (case newURL pf s of None \<Rightarrow> Inl [(p, invalid_string)] | Some _ \<Rightarrow> Inr s)
      | _ \<Rightarrow> Inl [(p, invalid_type)])"

definition zNumber :: "real \<Rightarrow> real \<Rightarrow> real \<Rightarrow> seg list \<Rightarrow> json option \<Rightarrow> issue list + real" where
  \<comment> \<open>\<open>z.number().min(lo).max(hi).default(d)\<close>\<close>
  "zNumber lo hi d p v =
     (case v of
        None \<Rightarrow> Inr d
      | Some (JNum x) \<Rightarrow>
          (let is = (if x < lo then [(p, too_small)] else []) @ (if hi < x then [(p, too_big)] else [])
           in if is = [] then Inr x else Inl is)
      | Some _ \<Rightarrow> Inl [(p, invalid_type)])"

definition zBooleanOptional :: "seg list \<Rightarrow> json option \<Rightarrow> issue list + bool option" where
  \<comment> \<open>\<open>z.boolean().optional()\<close>\<close>
  "zBooleanOptional p v =
     (case v of None \<Rightarrow> Inr None | Some (JBool b) \<Rightarrow> Inr (Some b) | Some _ \<Rightarrow> Inl [(p, invalid_type)])"

definition zArray ::
  "nat \<Rightarrow> (seg list \<Rightarrow> json option \<Rightarrow> issue list + 'a) \<Rightarrow> seg list \<Rightarrow> json option
     \<Rightarrow> issue list + 'a list" where
  \<comment> \<open>\<open>z.array(elem).min(n)\<close>; \<open>n = 0\<close> for an array schema without \<open>min\<close>\<close>
  "zArray n elem p v =
     (case v of
        Some (JArr xs) \<Rightarrow>
          (let rs = map (\<lambda>(i, x). elem (p @ [Index i]) (Some x)) (enumerate 0 xs);
               is = (if length xs < n then [(p, too_small)] else []) @ concat (map errs rs)
           in if is = [] then Inr (oks rs) else Inl is)
      | _ \<Rightarrow> Inl [(p, invalid_type)])"

definition zParam :: "seg list \<Rightarrow> json option \<Rightarrow> issue list + param_def" where
  \<comment> \<open>\<open>z.object({ name: z.string(), samples: z.array(z.string()).min(1) })\<close>\<close>
  "zParam p v =
     (case v of
        Some (JObj kv) \<Rightarrow>
          (let n = zString (p @ [Key ''name'']) (map_of kv ''name'');
               s = zArray 1 zString (p @ [Key ''samples'']) (map_of kv ''samples'')
           in case (n, s) of
                (Inr a, Inr b) \<Rightarrow> Inr \<lparr>name = a, samples = b\<rparr>
              | _ \<Rightarrow> Inl (errs n @ errs s))
      | _ \<Rightarrow> Inl [(p, invalid_type)])"

definition zMethod :: "seg list \<Rightarrow> json option \<Rightarrow> issue list + http_method" where
  \<comment> \<open>\<open>z.enum(["GET", "POST", "PUT", "PATCH", "DELETE"]).default("GET")\<close>\<close>
  "zMethod p v =
     (case v of
        None \<Rightarrow> Inr GET
      | Some (JStr s) \<Rightarrow>
          if s = ''GET'' then Inr GET
          else if s = ''POST'' then Inr POST_method
          else if s = ''PUT'' then Inr PUT
          else if s = ''PATCH'' then Inr PATCH
          else if s = ''DELETE'' then Inr DELETE
          else Inl [(p, invalid_enum_value)]
      | Some _ \<Rightarrow> Inl [(p, invalid_type)])"

definition zBodyTemplate :: "seg list \<Rightarrow> json option \<Rightarrow> issue list + json option" where
  \<comment> \<open>\<open>z.union([z.string(), z.record(z.any())]).optional()\<close>\<close>
  "zBodyTemplate p v =
     (case v of
        None \<Rightarrow> Inr None
      | Some (JStr s) \<Rightarrow> Inr (Some (JStr s))
      | Some (JObj kv) \<Rightarrow> Inr (Some (JObj kv))
      | Some _ \<Rightarrow> Inl [(p, invalid_union)])"

definition zEndpoint :: "seg list \<Rightarrow> json option \<Rightarrow> issue list + endpoint_spec" where
  \<comment> \<open>\<open>EndpointSchema\<close>\<close>
  "zEndpoint p v =
     (case v of
        Some (JObj kv) \<Rightarrow>
          (let m = zMethod (p @ [Key ''method'']) (map_of kv ''method'');
               t = zString (p @ [Key ''pathTemplate'']) (map_of kv ''pathTemplate'');
               pp = (case map_of kv ''pathParams'' of
                       None \<Rightarrow> Inr []
                     | Some x \<Rightarrow> zArray 0 zParam (p @ [Key ''pathParams'']) (Some x));
               qp = (case map_of kv ''queryParams'' of
                       None \<Rightarrow> Inr None
                     | Some x \<Rightarrow> map_sum id Some (zArray 0 zParam (p @ [Key ''queryParams'']) (Some x)));
               b = zBodyTemplate (p @ [Key ''bodyTemplate'']) (map_of kv ''bodyTemplate'')
           in case (m, t, pp, qp, b) of
                (Inr m', Inr t', Inr pp', Inr qp', Inr b') \<Rightarrow>
                  Inr \<lparr>epMethod = m', pathTemplate = t', pathParams = pp', queryParams = qp',
                       bodyTemplate = b'\<rparr>
              | _ \<Rightarrow> Inl (errs m @ errs t @ errs pp @ errs qp @ errs b))
      | _ \<Rightarrow> Inl [(p, invalid_type)])"

definition zHeaders ::
  "seg list \<Rightarrow> json option \<Rightarrow> issue list + (string \<times> string) list option" where
  \<comment> \<open>\<open>HeaderSchema\<close>, that is \<open>z.record(z.string()).optional()\<close>\<close>
  "zHeaders p v =
     (case v of
        None \<Rightarrow> Inr None
      | Some (JObj kv) \<Rightarrow>
          (let rs = map (\<lambda>(k, x). map_sum id (Pair k) (zString (p @ [Key k]) (Some x))) kv
           in if concat (map errs rs) = [] then Inr (Some (oks rs)) else Inl (concat (map errs rs)))
      | Some _ \<Rightarrow> Inl [(p, invalid_type)])"

definition zAuth :: "seg list \<Rightarrow> json option \<Rightarrow> issue list + auth_context" where
  \<comment> \<open>\<open>z.object({ headers: HeaderSchema, cookies: HeaderSchema }).partial()\<close>\<close>
  "zAuth p v =
     (case v of
        Some (JObj kv) \<Rightarrow>
          (let h = zHeaders (p @ [Key ''headers'']) (map_of kv ''headers'');
               c = zHeaders (p @ [Key ''cookies'']) (map_of kv ''cookies'')
           in case (h, c) of
                (Inr h', Inr c') \<Rightarrow> Inr \<lparr>headers = h', cookies = c'\<rparr>
              | _ \<Rightarrow> Inl (errs h @ errs c))
      | _ \<Rightarrow> Inl [(p, invalid_type)])"

definition zAuthContexts :: "seg list \<Rightarrow> json option \<Rightarrow> issue list + auth_contexts" where
  "zAuthContexts p v =
     (case v of
        Some (JObj kv) \<Rightarrow>
          (let vi = zAuth (p @ [Key ''victim'']) (map_of kv ''victim'');
               atk = (case map_of kv ''attacker'' of
                       None \<Rightarrow> Inr None
                     | Some x \<Rightarrow> map_sum id Some (zAuth (p @ [Key ''attacker'']) (Some x)));
               un = zBooleanOptional (p @ [Key ''unauthenticated'']) (map_of kv ''unauthenticated'')
           in case (vi, atk, un) of
                (Inr vi', Inr atk', Inr un') \<Rightarrow>
                  Inr \<lparr>victim = vi', attacker = atk', unauthenticated = un'\<rparr>
              | _ \<Rightarrow> Inl (errs vi @ errs atk @ errs un))
      | _ \<Rightarrow> Inl [(p, invalid_type)])"

text \<open>The issues of one key of \<open>ScanRequestSchema\<close>, checked on its own.\<close>

definition fieldIssues :: "('u, 'h) platform \<Rightarrow> (string \<times> json) list \<Rightarrow> string \<Rightarrow> issue list" where
  "fieldIssues pf kv k =
     (if k = ''baseUrl'' then errs (zUrl pf [Key k] (map_of kv k))
      else if k = ''endpoints'' then errs (zArray 1 zEndpoint [Key k] (map_of kv k))
      else if k = ''authContexts'' then errs (zAuthContexts [Key k] (map_of kv k))
      else if k = ''speedGateThreshold'' then errs (zNumber 0 1 (8 / 10) [Key k] (map_of kv k))
      else if k = ''maxConcurrency'' then errs (zNumber 1 12 5 [Key k] (map_of kv k))
      else if k = ''timeoutMs'' then errs (zNumber 1000 60000 8000 [Key k] (map_of kv k))
      else [])"

definition scanRequestKeys :: "string list" where
  "scanRequestKeys =
     [''baseUrl'', ''endpoints'', ''authContexts'', ''speedGateThreshold'', ''maxConcurrency'',
      ''timeoutMs'']"

definition safeParse :: "('u, 'h) platform \<Rightarrow> json \<Rightarrow> issue list + scan_request" where
  \<comment> \<open>\<open>ScanRequestSchema.safeParse\<close>\<close>
  "safeParse pf raw =
     (case raw of
        JObj kv \<Rightarrow>
          (case (zUrl pf [Key ''baseUrl''] (map_of kv ''baseUrl''),
                 zArray 1 zEndpoint [Key ''endpoints''] (map_of kv ''endpoints''),
                 zAuthContexts [Key ''authContexts''] (map_of kv ''authContexts''),
                 zNumber 0 1 (8 / 10) [Key ''speedGateThreshold''] (map_of kv ''speedGateThreshold''),
                 zNumber 1 12 5 [Key ''maxConcurrency''] (map_of kv ''maxConcurrency''),
                 zNumber 1000 60000 8000 [Key ''timeoutMs''] (map_of kv ''timeoutMs'')) of
             (Inr b, Inr e, Inr a, Inr s, Inr m, Inr t) \<Rightarrow>
               Inr \<lparr>baseUrl = b, endpoints = e, authContexts = a, speedGateThreshold = s,
                    maxConcurrency = m, timeoutMs = t\<rparr>
           | _ \<Rightarrow> Inl (concat (map (fieldIssues pf kv) scanRequestKeys)))
      | _ \<Rightarrow> Inl [([], invalid_type)])"

text \<open>
  \<open>parsed.error.flatten()\<close>: the issues without a path, and the issues of every top-level
  key under that key. The messages of the issues are represented by their codes.
\<close>

record flattened =
  formErrors :: "issue_code list"
  fieldErrors :: "(seg \<times> issue_code list) list"

fun addFieldError :: "seg \<Rightarrow> issue_code \<Rightarrow> (seg \<times> issue_code list) list \<Rightarrow> (seg \<times> issue_code list) list" where
  "addFieldError k c [] = [(k, [c])]"
| "addFieldError k c ((k', cs) # r) =
     (if k = k' then (k', cs @ [c]) # r else (k', cs) # addFieldError k c r)"

definition flatten :: "issue list \<Rightarrow> flattened" where
  "flatten issues =
     \<lparr>formErrors = concat (map (\<lambda>(p, c). if p = [] then [c] else []) issues),
      fieldErrors = fold (\<lambda>(p, c) acc. case p of [] \<Rightarrow> acc | k # _ \<Rightarrow> addFieldError k c acc) issues []\<rparr>"


section \<open>Template resolver\<close>

text \<open>
  \<open>input.replace(/\{(\w+)\}/g, (_, k) => vars[k] ?? `{${k}}`)\<close>. \<open>templateAt s\<close> is the match
  of \<open>\{(\w+)\}\<close> at the start of \<open>s\<close>: the name and the text behind the closing brace.
  \<open>vars\<close> lists the own properties of the object; the value \<open>None\<close> is \<open>undefined\<close>.
\<close>

definition templateAt :: "string \<Rightarrow> (string \<times> string) option" where
  "templateAt s =
     (case s of
        [] \<Rightarrow> None
      | c # cs \<Rightarrow>
          if c \<noteq> CHR ''{'' \<or> takeWhile isWord cs = [] then None
          else
            (case dropWhile isWord cs of
               [] \<Rightarrow> None
             | d # rest \<Rightarrow> if d = CHR ''}'' then Some (takeWhile isWord cs, rest) else None))"

lemma templateAt_shorter: "templateAt s = Some (k, rest) \<Longrightarrow> length rest < length s"
proof -
  assume "templateAt s = Some (k, rest)"
  then obtain c cs d where "s = c # cs" "dropWhile isWord cs = d # rest"
    by (auto simp: templateAt_def split: list.splits if_splits)
  then show ?thesis
    by (metis length_dropWhile_le length_Cons less_Suc_eq_le not_less less_Suc_eq)
qed

definition lookupVar ::
  "('u, 'h) platform \<Rightarrow> (string \<times> string option) list \<Rightarrow> string \<Rightarrow> string" where
  "lookupVar pf vars k =
     (case map_of vars k of
        Some (Some v) \<Rightarrow> v
      | Some None \<Rightarrow> ''{'' @ k @ ''}''
      | None \<Rightarrow> (case prototypeMember pf k of Some v \<Rightarrow> v | None \<Rightarrow> ''{'' @ k @ ''}''))"

function applyTemplate ::
  "('u, 'h) platform \<Rightarrow> string \<Rightarrow> (string \<times> string option) list \<Rightarrow> string" where
  "applyTemplate pf [] vars = []"
| "applyTemplate pf (c # cs) vars =
     (case templateAt (c # cs) of
        Some (k, rest) \<Rightarrow> lookupVar pf vars k @ applyTemplate pf rest vars
      | None \<Rightarrow> c # applyTemplate pf cs vars)"
  by pat_completeness auto
termination
  by (relation "measure (\<lambda>(pf, s, vars). length s)") (auto dest: templateAt_shorter)

text \<open>
  \<open>buildUrl\<close>: \<open>baseUrl.replace(/\/$/, "")\<close> drops one slash at the end of the base,
  \<open>pathTmpl.replace(/^\//, "")\<close> one slash at the start of the path. \<open>new URL\<close> may throw;
  no handler stands in \<open>buildUrl\<close>, so the exception leaves it.
\<close>

definition dropTrailingSlash :: "string \<Rightarrow> string" where
  "dropTrailingSlash s = (if s \<noteq> [] \<and> last s = CHR ''/'' then butlast s else s)"

definition dropLeadingSlash :: "string \<Rightarrow> string" where
  "dropLeadingSlash s = (case s of [] \<Rightarrow> [] | c # cs \<Rightarrow> if c = CHR ''/'' then cs else s)"

definition buildUrl ::
  "('u, 'h) platform \<Rightarrow> string \<Rightarrow> string \<Rightarrow> (string \<times> string option) list \<Rightarrow> js_error + string" where
  "buildUrl pf base pathTmpl qp =
     (case newURL pf (dropTrailingSlash base @ ''/'' @ dropLeadingSlash pathTmpl) of
        None \<Rightarrow> Inl TypeError
      | Some u \<Rightarrow>
          Inr (urlToString pf
                (fold (\<lambda>(k, v) u'. case v of Some x \<Rightarrow> searchParamsSet pf u' k x | None \<Rightarrow> u') qp u)))"

text \<open>
  \<open>buildInit\<close> of \<open>POST\<close>: the headers of an identity, with its cookies joined into one
  \<open>cookie\<close> header. \<open>new Headers\<close> and \<open>h.set\<close> may throw, and nothing in \<open>buildInit\<close>
  catches it.
\<close>

fun joinWith :: "string \<Rightarrow> string list \<Rightarrow> string" where
  "joinWith sep [] = []"
| "joinWith sep [x] = x"
| "joinWith sep (x # y # ys) = x @ sep @ joinWith sep (y # ys)"

definition buildInit ::
  "('u, 'h) platform \<Rightarrow> (string \<times> string) list option \<Rightarrow> (string \<times> string) list option
     \<Rightarrow> js_error + 'h" where
  "buildInit pf hs cs =
     (case newHeaders pf (case hs of None \<Rightarrow> [] | Some l \<Rightarrow> l) of
        None \<Rightarrow> Inl TypeError
      | Some h \<Rightarrow>
          (case cs of
             None \<Rightarrow> Inr h
           | Some l \<Rightarrow>
               if l = [] then Inr h
               else
                 (case headersSet pf h ''cookie'' (joinWith ''; '' (map (\<lambda>(k, v). k @ ''='' @ v) l)) of
                    None \<Rightarrow> Inl TypeError
                  | Some h' \<Rightarrow> Inr h')))"


section \<open>Identity probe runner\<close>

text \<open>
  \<open>text.match(/"id"\s*:\s*"?(\w+)"?/i)?.[1]\<close>: the first group of the leftmost match.
  \<open>idAt s\<close> is the group of the match at the start of \<open>s\<close>. The optional quote before the
  group is taken when it is there: without it the group would have to start at the quote.
\<close>

definition idAt :: "string \<Rightarrow> string option" where
  "idAt s =
     (case s of
        q # i # d # q2 # rest \<Rightarrow>
          if isQuote q \<and> lowerAscii i = CHR ''i'' \<and> lowerAscii d = CHR ''d'' \<and> isQuote q2 then
            (case dropWhile isSpace rest of
               [] \<Rightarrow> None
             | colon # r2 \<Rightarrow>
                 if colon \<noteq> CHR '':'' then None
                 else
                   (let r3 = dropWhile isSpace r2;
                        r4 = (case r3 of [] \<Rightarrow> [] | x # xs \<Rightarrow> if isQuote x then xs else r3);
                        w = takeWhile isWord r4
                    in if w = [] then None else Some w))
          else None
      | _ \<Rightarrow> None)"

fun idMatch :: "string \<Rightarrow> string option" where
  "idMatch [] = None"
| "idMatch (c # cs) = (case idAt (c # cs) of Some w \<Rightarrow> Some w | None \<Rightarrow> idMatch cs)"

fun includes_str :: "string \<Rightarrow> string \<Rightarrow> bool" where
  \<comment> \<open>\<open>s.includes(t)\<close>\<close>
  "includes_str [] t = (t = [])"
| "includes_str (c # cs) t = (take (length t) (c # cs) = t \<or> includes_str cs t)"

definition is2xx :: "nat \<Rightarrow> bool" where
  "is2xx st = (200 \<le> st \<and> st < 300)"

definition toFixed3 :: "real \<Rightarrow> real" where
  \<comment> \<open>\<open>Number(x.toFixed(3))\<close>: the nearest multiple of 1/1000, the larger one at a tie\<close>
  "toFixed3 x = real_of_int \<lfloor>x * 1000 + 1 / 2\<rfloor> / 1000"

text \<open>
  Lines 159 to 188 of \<open>POST\<close>: the score of the attacker vector before the clamp, and its
  evidence. \<open>attackerId\<close> is \<open>primaryParam.samples[1] ?? primaryParam.samples[0]\<close>. The two
  calls of \<open>JSON.parse\<close> stand in a \<open>try\<close> whose handler is empty: when one of them throws,
  the score and the evidence stay as they are.
\<close>

definition attackerScore ::
  "('u, 'h) platform \<Rightarrow> nat \<Rightarrow> string \<Rightarrow> nat \<Rightarrow> string \<Rightarrow> string option
     \<Rightarrow> real \<times> evidence list" where
  "attackerScore pf baselineStatus baselineText attackerStatus attackerText attackerId =
     (if is2xx baselineStatus then
        (let sim = similarity baselineText attackerText;
             (score, evid) =
               (if is2xx attackerStatus
                then (0 + 6 / 10 + min (4 / 10) (sim * (4 / 10)), [SimilarityVictimAttacker (sim * 100)])
                else if attackerStatus = 401 \<or> attackerStatus = 403 then (0 + 5 / 100, [])
                else (0, []))
         in case jsonRoundTrip pf baselineText of
              None \<Rightarrow> (score, evid)
            | Some jv \<Rightarrow>
                (case jsonRoundTrip pf attackerText of
                   None \<Rightarrow> (score, evid)
                 | Some ja \<Rightarrow>
                     (let vIdStr = idMatch jv;
                          aIdStr = idMatch ja;
                          score1 = (if vIdStr \<noteq> None \<and> aIdStr \<noteq> None \<and> vIdStr = attackerId
                                    then score - 1 / 10 else score)
                      in case vIdStr of
                           None \<Rightarrow> (score1, evid)
                         | Some v \<Rightarrow>
                             if includes_str ja v then (score1 + 15 / 100, evid @ [VictimIdPresent v])
                             else (score1, evid))))
      else (0, []))"

definition clamp01 :: "real \<Rightarrow> real" where
  \<comment> \<open>\<open>Math.max(0, Math.min(1, score))\<close>\<close>
  "clamp01 x = max 0 (min 1 x)"

text \<open>The two labels of the field \<open>attackVector\<close>.\<close>

definition attackerVectorLabel :: string where
  "attackerVectorLabel = ''Attacker requests victim's resource via URL id''"

definition unauthVectorLabel :: string where
  "unauthVectorLabel = ''Unauthenticated requests victim's resource''"

text \<open>
  Lines 205 to 228: the unauthenticated probe of a job, on the state \<open>w\<close>. The call of
  \<open>timedFetch\<close>, the reading of the text and the scoring stand in one \<open>try\<close> with an empty
  handler.
\<close>

definition unauthProbe ::
  "scan_request \<Rightarrow> (AuthCtxName \<Rightarrow> fetch_result) \<Rightarrow> endpoint_spec \<Rightarrow> string \<Rightarrow> string \<Rightarrow> nat \<Rightarrow> string
     \<Rightarrow> 'h world \<Rightarrow> 'h world" where
  "unauthProbe cfg net ep pathVictim urlVictim baselineStatus baselineText w =
     (if unauthenticated (authContexts cfg) = Some True then
        (let w1 = w\<lparr>requests := requests w @
                     [\<lparr>who = Unauthenticated, url = urlVictim, reqMethod = epMethod ep,
                       reqHeaders = None, timeout = timeoutMs cfg\<rparr>]\<rparr>
         in case net Unauthenticated of
              FetchFailed \<Rightarrow> w1
            | Response st None \<Rightarrow> w1
            | Response st (Some textUnauth) \<Rightarrow>
                if is2xx st then
                  (let sim = similarity baselineText textUnauth;
                       s = 65 / 100 + min (35 / 100) (sim * (35 / 100))
                   in if speedGateThreshold cfg \<le> s then
                        w1\<lparr>findings := findings w1 @
                             [\<lparr>endpoint = pathVictim, findingMethod = epMethod ep,
                               attackVector = unauthVectorLabel,
                               statusVictim = baselineStatus, statusAttacker = st,
                               confidence = toFixed3 s,
                               evidence = [SimilarityVictimUnauth (sim * 100)]\<rparr>]\<rparr>
                      else w1)
                else w1)
      else w)"

text \<open>
  Lines 132 to 229: the job of one endpoint, on the shared state. \<open>net\<close> gives the answer
  of the network to the call made for each identity. The job returns normally
  (\<open>Inr ()\<close>) or throws (\<open>Inl\<close>): \<open>buildUrl\<close> and \<open>buildInit\<close> for the attacker are called
  outside the \<open>try\<close> blocks of the job.
\<close>

definition probeTask ::
  "('u, 'h) platform \<Rightarrow> scan_request \<Rightarrow> (AuthCtxName \<Rightarrow> fetch_result) \<Rightarrow> endpoint_spec \<Rightarrow> string \<Rightarrow> string
     \<Rightarrow> 'h \<Rightarrow> string option \<Rightarrow> 'h world \<Rightarrow> (js_error + unit) \<times> 'h world" where
  "probeTask pf cfg net ep pathVictim urlVictim victimInit attackerId w =
     (let w1 = w\<lparr>requests := requests w @
                  [\<lparr>who = Victim, url = urlVictim, reqMethod = epMethod ep,
                    reqHeaders = Some victimInit, timeout = timeoutMs cfg\<rparr>]\<rparr>
      in case net Victim of
           FetchFailed \<Rightarrow> (Inr (), w1)
         | Response baselineStatus None \<Rightarrow> (Inr (), w1)
         | Response baselineStatus (Some baselineText) \<Rightarrow>
             (case buildUrl pf (baseUrl cfg) pathVictim [] of
                Inl e \<Rightarrow> (Inl e, w1)
              | Inr urlAttackVictim \<Rightarrow>
                  (case (case attacker (authContexts cfg) of
                           None \<Rightarrow> Inr None
                         | Some a \<Rightarrow> map_sum id Some (buildInit pf (headers a) (cookies a))) of
                     Inl e \<Rightarrow> (Inl e, w1)
                   | Inr attackerInit \<Rightarrow>
                       (let w2 = w1\<lparr>requests := requests w1 @
                                    [\<lparr>who = Attacker, url = urlAttackVictim, reqMethod = epMethod ep,
                                      reqHeaders = attackerInit, timeout = timeoutMs cfg\<rparr>]\<rparr>;
                            (attackerStatus, attackerText) =
                              (case net Attacker of
                                 FetchFailed \<Rightarrow> (0, [])
                               | Response st None \<Rightarrow> (st, [])
                               | Response st (Some t) \<Rightarrow> (st, t));
                            (score0, evid) =
                              attackerScore pf baselineStatus baselineText attackerStatus attackerText
                                attackerId;
                            score = clamp01 score0;
                            w3 = (if speedGateThreshold cfg \<le> score then
                                    w2\<lparr>findings := findings w2 @
                                         [\<lparr>endpoint = pathVictim, findingMethod = epMethod ep,
                                           attackVector = attackerVectorLabel,
                                           statusVictim = baselineStatus, statusAttacker = attackerStatus,
                                           confidence = toFixed3 score, evidence = evid\<rparr>]\<rparr>
                                  else w2)
                        in (Inr (),
                            unauthProbe cfg net ep pathVictim urlVictim baselineStatus baselineText w3)))))"


section \<open>Concurrency scheduler and scan orchestrator\<close>

text \<open>
  A job is a function on the shared state that returns a value or throws. The state of
  \<open>runWithConcurrency\<close>: the shared index \<open>idx\<close>, the results \<open>out\<close>, the indices of the
  jobs started so far, and the state the jobs share.
\<close>

record ('a, 'w) sched =
  idx :: nat
  out :: "'a list"
  started :: "nat list"
  shared :: 'w

text \<open>
  One runner, lines 236 to 243: while \<open>idx < jobs.length\<close>, take the job at \<open>idx\<close>,
  advance \<open>idx\<close>, await the job, push its result; the handler of the \<open>try\<close> is empty.
\<close>

function runner :: "('w \<Rightarrow> (js_error + 'a) \<times> 'w) list \<Rightarrow> ('a, 'w) sched \<Rightarrow> ('a, 'w) sched" where
  "runner jobs s =
     (if idx s < length jobs then
        (let current = idx s;
             (res, w') = (jobs ! current) (shared s)
         in runner jobs
              \<lparr>idx = Suc current,
               out = (case res of Inl e \<Rightarrow> out s | Inr v \<Rightarrow> out s @ [v]),
               started = started s @ [current],
               shared = w'\<rparr>)
      else s)"
  by pat_completeness auto
termination
  by (relation "measure (\<lambda>(jobs, s). length jobs - idx s)") auto

declare runner.simps [simp del]

text \<open>
  \<open>runWithConcurrency\<close>: \<open>new Array(Math.min(max, jobs.length))\<close> throws a \<open>RangeError\<close>
  unless the length is an integer from 0 to 4294967295; then that many runners are
  started. With one runner the model is the execution. With several runners it is the
  schedule in which every job settles before the next one is taken; under other schedules
  the same jobs run and their results arrive in another order.
\<close>

definition runWithConcurrency ::
  "('w \<Rightarrow> (js_error + 'a) \<times> 'w) list \<Rightarrow> real \<Rightarrow> 'w \<Rightarrow> js_error + ('a, 'w) sched" where
  "runWithConcurrency jobs mx w =
     (let n = min mx (real (length jobs))
      in if 0 \<le> n \<and> n \<le> 4294967295 \<and> real_of_int \<lfloor>n\<rfloor> = n
         then Inr ((runner jobs ^^ nat \<lfloor>n\<rfloor>) \<lparr>idx = 0, out = [], started = [], shared = w\<rparr>)
         else Inl RangeError)"

text \<open>
  Lines 117 to 230: the loop over the endpoints that builds the jobs. A job is a closure;
  the record holds the variables it captures, and \<open>runJob\<close> is its body. An endpoint
  without a path parameter is skipped. \<open>buildUrl\<close> and \<open>buildInit\<close> are called in the loop
  itself: an exception of either leaves the loop and \<open>POST\<close>. \<open>jobIndex\<close> is the position
  of the endpoint in \<open>cfg.endpoints\<close>; \<open>net i\<close> answers the calls made for that endpoint.
\<close>

definition nth_opt :: "'a list \<Rightarrow> nat \<Rightarrow> 'a option" where
  \<comment> \<open>\<open>xs[i]\<close>, which is \<open>undefined\<close> out of range\<close>
  "nth_opt xs i = (if i < length xs then Some (xs ! i) else None)"

record 'h job =
  jobIndex :: nat
  jobEndpoint :: endpoint_spec
  jobPathVictim :: string
  jobUrlVictim :: string
  jobVictimInit :: 'h
  jobAttackerId :: "string option"

definition runJob ::
  "('u, 'h) platform \<Rightarrow> scan_request \<Rightarrow> (nat \<Rightarrow> AuthCtxName \<Rightarrow> fetch_result) \<Rightarrow> 'h job
     \<Rightarrow> 'h world \<Rightarrow> (js_error + unit) \<times> 'h world" where
  "runJob pf cfg net j =
     probeTask pf cfg (net (jobIndex j)) (jobEndpoint j) (jobPathVictim j) (jobUrlVictim j)
       (jobVictimInit j) (jobAttackerId j)"

definition victimPath :: "('u, 'h) platform \<Rightarrow> endpoint_spec \<Rightarrow> param_def \<Rightarrow> string" where
  \<comment> \<open>\<open>pathVictim\<close>: the template with the first sample of the primary parameter\<close>
  "victimPath pf ep primaryParam =
     applyTemplate pf (pathTemplate ep) [(name primaryParam, nth_opt (samples primaryParam) 0)]"

fun buildTasks ::
  "('u, 'h) platform \<Rightarrow> scan_request \<Rightarrow> nat \<Rightarrow> endpoint_spec list \<Rightarrow> js_error + 'h job list" where
  "buildTasks pf cfg i [] = Inr []"
| "buildTasks pf cfg i (ep # eps) =
     (case pathParams ep of
        [] \<Rightarrow> buildTasks pf cfg (Suc i) eps
      | primaryParam # _ \<Rightarrow>
          (let attackerId = (case nth_opt (samples primaryParam) 1 of
                               Some x \<Rightarrow> Some x
                             | None \<Rightarrow> nth_opt (samples primaryParam) 0);
               pathVictim = victimPath pf ep primaryParam
           in case buildUrl pf (baseUrl cfg) pathVictim [] of
                Inl e \<Rightarrow> Inl e
              | Inr urlVictim \<Rightarrow>
                  (case buildInit pf (headers (victim (authContexts cfg)))
                          (cookies (victim (authContexts cfg))) of
                     Inl e \<Rightarrow> Inl e
                   | Inr victimInit \<Rightarrow>
                       (case buildTasks pf cfg (Suc i) eps of
                          Inl e \<Rightarrow> Inl e
                        | Inr tasks \<Rightarrow>
                            Inr (\<lparr>jobIndex = i, jobEndpoint = ep, jobPathVictim = pathVictim,
                                  jobUrlVictim = urlVictim, jobVictimInit = victimInit,
                                  jobAttackerId = attackerId\<rparr> # tasks)))))"

text \<open>
  The handler \<open>POST\<close>. \<open>body\<close> is the value of \<open>req.json()\<close>, \<open>None\<close> when the body is not
  JSON and \<open>req.json()\<close> throws. The result is the response or the exception that leaves
  the handler, with the calls of \<open>timedFetch\<close> made and the jobs started.
\<close>

datatype http_response = BadRequest flattened | Findings "finding list"

record 'h post_result =
  response :: "js_error + http_response"
  calls :: "'h request list"
  jobsStarted :: "nat list"

definition POST ::
  "('u, 'h) platform \<Rightarrow> json option \<Rightarrow> (nat \<Rightarrow> AuthCtxName \<Rightarrow> fetch_result) \<Rightarrow> 'h post_result" where
  "POST pf body net =
     (case body of
        None \<Rightarrow> \<lparr>response = Inl SyntaxError, calls = [], jobsStarted = []\<rparr>
      | Some raw \<Rightarrow>
          (case safeParse pf raw of
             Inl issues \<Rightarrow> \<lparr>response = Inr (BadRequest (flatten issues)), calls = [], jobsStarted = []\<rparr>
           | Inr cfg \<Rightarrow>
               (case buildTasks pf cfg 0 (endpoints cfg) of
                  Inl e \<Rightarrow> \<lparr>response = Inl e, calls = [], jobsStarted = []\<rparr>
                | Inr tasks \<Rightarrow>
                    (case runWithConcurrency (map (runJob pf cfg net) tasks) (maxConcurrency cfg)
                            \<lparr>findings = [], requests = []\<rparr> of
                       Inl e \<Rightarrow> \<lparr>response = Inl e, calls = [], jobsStarted = []\<rparr>
                     | Inr s \<Rightarrow>
                         \<lparr>response = Inr (Findings (findings (shared s))),
                          calls = requests (shared s), jobsStarted = started s\<rparr>))))"

text \<open>
  The scheduler as the specification describes it for one worker: every job is run
  exactly once, in order, each on the state its predecessors left; the outcomes are
  listed, and the results of the jobs that succeed are collected.
\<close>

fun eachOnce :: "('w \<Rightarrow> (js_error + 'a) \<times> 'w) list \<Rightarrow> 'w \<Rightarrow> (js_error + 'a) list \<times> 'w" where
  "eachOnce [] w = ([], w)"
| "eachOnce (j # js) w =
     (case j w of (r, w') \<Rightarrow> (case eachOnce js w' of (rs, w'') \<Rightarrow> (r # rs, w'')))"

fun successes :: "(js_error + 'a) list \<Rightarrow> 'a list" where
  "successes [] = []"
| "successes (Inl e # rs) = successes rs"
| "successes (Inr v # rs) = v # successes rs"


section \<open>Example inputs\<close>

text \<open>
  The platform of the examples: the values of the platform functions at the arguments
  that the examples use. \<open>new URL\<close> is given on the addresses of the examples and refuses
  every other text, \<open>x://a b/1\<close> among them (a host with a space); \<open>new Headers\<close> accepts
  the header \<open>x-user-id\<close> and refuses every other name, \<open>x user\<close> among them (a name with a
  space); \<open>JSON.stringify(JSON.parse(t))\<close> is given on three bodies, which it leaves as
  they are, and no inherited member is looked up.
\<close>

definition body1001 :: string where
  "body1001 = ''{\"id\":\"1001\"}''"

definition body1002 :: string where
  "body1002 = ''{\"id\":\"1002\"}''"

definition bodyDenied :: string where
  "bodyDenied = ''{\"error\":\"no access to user 1001\"}''"

definition examplePlatform :: "(string, (string \<times> string) list) platform" where
  "examplePlatform =
     \<lparr>newURL = map_of
        [(''http://api.test'', ''http://api.test/''),
         (''http://api.test/users/1001'', ''http://api.test/users/1001''),
         (''http://api.test/orders/7'', ''http://api.test/orders/7''),
         (''x://'', ''x://''),
         (''x://ok/1'', ''x://ok/1'')],
      searchParamsSet = (\<lambda>u k v. u),
      urlToString = (\<lambda>u. u),
      newHeaders = (\<lambda>hs. if list_all (\<lambda>(k, v). k = ''x-user-id'') hs then Some hs else None),
      headersSet = (\<lambda>h k v. Some (h @ [(k, v)])),
      jsonRoundTrip = map_of [(body1001, body1001), (body1002, body1002), (bodyDenied, bodyDenied)],
      prototypeMember = (\<lambda>k. None)\<rparr>"

text \<open>
  A scan of two endpoints of \<open>http://api.test\<close> with the default threshold, as a request
  body and as the configuration that \<open>safeParse\<close> makes of it.
\<close>

definition usersEndpoint :: endpoint_spec where
  "usersEndpoint =
     \<lparr>epMethod = GET, pathTemplate = ''/users/{id}'',
      pathParams = [\<lparr>name = ''id'', samples = [''1001'', ''1002'']\<rparr>],
      queryParams = None, bodyTemplate = None\<rparr>"

definition ordersEndpoint :: endpoint_spec where
  "ordersEndpoint =
     \<lparr>epMethod = GET, pathTemplate = ''/orders/{id}'',
      pathParams = [\<lparr>name = ''id'', samples = [''7'']\<rparr>],
      queryParams = None, bodyTemplate = None\<rparr>"

definition exampleConfig :: scan_request where
  "exampleConfig =
     \<lparr>baseUrl = ''http://api.test'',
      endpoints = [usersEndpoint, ordersEndpoint],
      authContexts =
        \<lparr>victim = \<lparr>headers = Some [(''x-user-id'', ''1001'')], cookies = None\<rparr>,
         attacker = Some \<lparr>headers = Some [(''x-user-id'', ''1002'')], cookies = None\<rparr>,
         unauthenticated = Some True\<rparr>,
      speedGateThreshold = 8 / 10, maxConcurrency = 5, timeoutMs = 8000\<rparr>"

definition paramJson :: "string \<Rightarrow> string list \<Rightarrow> json" where
  "paramJson n ss = JObj [(''name'', JStr n), (''samples'', JArr (map JStr ss))]"

definition endpointJson :: "string \<Rightarrow> string list \<Rightarrow> json" where
  "endpointJson t ss =
     JObj [(''pathTemplate'', JStr t), (''pathParams'', JArr [paramJson ''id'' ss])]"

definition authJson :: "string \<Rightarrow> string \<Rightarrow> json" where
  "authJson k v = JObj [(''headers'', JObj [(k, JStr v)])]"

definition exampleRequest :: json where
  "exampleRequest =
     JObj [(''baseUrl'', JStr ''http://api.test''),
           (''endpoints'', JArr [endpointJson ''/users/{id}'' [''1001'', ''1002''],
                                 endpointJson ''/orders/{id}'' [''7'']]),
           (''authContexts'',
              JObj [(''victim'', authJson ''x-user-id'' ''1001''),
                    (''attacker'', authJson ''x-user-id'' ''1002''),
                    (''unauthenticated'', JBool True)])]"

text \<open>
  Networks. \<open>openNet\<close>: the target answers every identity with the victim's record.
  \<open>denyingNet\<close>: the target refuses the attacker with 403 and a message that names the
  record, and the request without identity with 401. \<open>ownRecordNet\<close>: the target answers
  the attacker with the attacker's own record. \<open>exampleNet\<close>: the first endpoint is open,
  the calls of every other endpoint fail.
\<close>

definition openNet :: "AuthCtxName \<Rightarrow> fetch_result" where
  "openNet idn = Response 200 (Some body1001)"


definition ownRecordNet :: "AuthCtxName \<Rightarrow> fetch_result" where
  "ownRecordNet idn =
     (case idn of
        Victim \<Rightarrow> Response 200 (Some body1001)
      | Attacker \<Rightarrow> Response 200 (Some body1002)
      | Unauthenticated \<Rightarrow> Response 401 (Some bodyDenied))"

definition exampleNet :: "nat \<Rightarrow> AuthCtxName \<Rightarrow> fetch_result" where
  "exampleNet i idn = (if i = 0 then openNet idn else FetchFailed)"

text \<open>
  Three more request bodies. \<open>malformedRequest\<close>: the base \<open>x://\<close> is a URL, the first
  endpoint resolves to the URL \<open>x://ok/1\<close>, the second to \<open>x://a b/1\<close>, which \<open>new URL\<close>
  refuses. \<open>badAttackerRequest\<close>: the example request with an attacker header whose name
  \<open>new Headers\<close> refuses. \<open>invalidRequest\<close>: a body that violates the schema in four keys.
\<close>

definition okEndpoint :: endpoint_spec where
  "okEndpoint =
     \<lparr>epMethod = GET, pathTemplate = ''ok/{id}'',
      pathParams = [\<lparr>name = ''id'', samples = [''1'']\<rparr>],
      queryParams = None, bodyTemplate = None\<rparr>"

definition spaceEndpoint :: endpoint_spec where
  "spaceEndpoint =
     \<lparr>epMethod = GET, pathTemplate = ''a b/{id}'',
      pathParams = [\<lparr>name = ''id'', samples = [''1'']\<rparr>],
      queryParams = None, bodyTemplate = None\<rparr>"

definition malformedConfig :: scan_request where
  "malformedConfig = exampleConfig\<lparr>baseUrl := ''x://'', endpoints := [okEndpoint, spaceEndpoint]\<rparr>"

definition malformedRequest :: json where
  "malformedRequest =
     JObj [(''baseUrl'', JStr ''x://''),
           (''endpoints'', JArr [endpointJson ''ok/{id}'' [''1''], endpointJson ''a b/{id}'' [''1'']]),
           (''authContexts'',
              JObj [(''victim'', authJson ''x-user-id'' ''1001''),
                    (''attacker'', authJson ''x-user-id'' ''1002''),
                    (''unauthenticated'', JBool True)])]"

definition badAttackerConfig :: scan_request where
  "badAttackerConfig =
     exampleConfig\<lparr>authContexts :=
       \<lparr>victim = \<lparr>headers = Some [(''x-user-id'', ''1001'')], cookies = None\<rparr>,
        attacker = Some \<lparr>headers = Some [(''x user'', ''1002'')], cookies = None\<rparr>,
        unauthenticated = Some True\<rparr>\<rparr>"

definition badAttackerRequest :: json where
  "badAttackerRequest =
     JObj [(''baseUrl'', JStr ''http://api.test''),
           (''endpoints'', JArr [endpointJson ''/users/{id}'' [''1001'', ''1002''],
                                 endpointJson ''/orders/{id}'' [''7'']]),
           (''authContexts'',
              JObj [(''victim'', authJson ''x-user-id'' ''1001''),
                    (''attacker'', authJson ''x user'' ''1002''),
                    (''unauthenticated'', JBool True)])]"

definition invalidRequest :: json where
  "invalidRequest =
     JObj [(''baseUrl'', JStr ''not a url''),
           (''endpoints'', JArr []),
           (''maxConcurrency'', JNum 50)]"

definition deadNet :: "nat \<Rightarrow> AuthCtxName \<Rightarrow> fetch_result" where
  \<comment> \<open>every call fails\<close>
  "deadNet i idn = FetchFailed"


section \<open>Texts on which a pass of the normalizer finds nothing\<close>

text \<open>
  \<open>numFree prev s\<close>: the first pattern of \<open>redactVolatile\<close> matches at no position of \<open>s\<close>,
  when the code unit before \<open>s\<close> is a word character exactly if \<open>prev\<close> holds.
  \<open>uuidFree\<close> says the same of the second pattern. \<open>isHD\<close> is the class of the code units
  that a match of the second pattern consists of.
\<close>

fun numFree :: "bool \<Rightarrow> string \<Rightarrow> bool" where
  "numFree prev [] = True"
| "numFree prev (c # cs) = (\<not> numAt prev (c # cs) \<and> numFree (isWord c) cs)"

fun uuidFree :: "bool \<Rightarrow> string \<Rightarrow> bool" where
  "uuidFree prev [] = True"
| "uuidFree prev (c # cs) = (\<not> uuidAt prev (c # cs) \<and> uuidFree (isWord c) cs)"

definition isHD :: "char \<Rightarrow> bool" where
  "isHD c = (isHex c \<or> isDash c)"


section \<open>Properties of the similarity scorer\<close>

lemmas char_class_defs =
  inRange_def isDigit_def isLower_def isUpper_def isWord_def isSpace_def isHex_def
  isVersion_def isVariant_def isDash_def isQuote_def isTokenChar_def lowerAscii_def

lemma levenshteinDistance_refl: "levenshteinDistance xs xs = 0"
  by (induction xs) simp_all

lemma levenshteinDistance_sym: "levenshteinDistance xs ys = levenshteinDistance ys xs"
proof (induction xs ys rule: levenshteinDistance.induct)
  case (1 ys)
  then show ?case by (cases ys) simp_all
next
  case (2 x xs)
  then show ?case by simp
next
  case (3 x xs y ys)
  then show ?case by (simp add: min.commute min.left_commute eq_commute)
qed

text \<open>
  Equal heads can be dropped. The equation replaces the third equation of the function
  for evaluation: it does not branch on a common prefix.
\<close>

lemma lev_length_bounds:
  "length ys \<le> length xs + levenshteinDistance xs ys \<and>
   length xs \<le> length ys + levenshteinDistance xs ys"
  by (induction xs ys rule: levenshteinDistance.induct) (auto simp: min_def)

lemma lev_drop:
  "levenshteinDistance xs ys \<le> Suc (levenshteinDistance (x # xs) ys) \<and>
   levenshteinDistance xs ys \<le> Suc (levenshteinDistance xs (y # ys))"
proof (induction xs ys arbitrary: x y rule: levenshteinDistance.induct)
  case (1 ys)
  show ?case using lev_length_bounds[of ys "[x]"] by simp
next
  case (2 a xs)
  show ?case using lev_length_bounds[of "[y]" "a # xs"] by simp
next
  case (3 a xs b ys)
  define L where "L = levenshteinDistance (a # xs) (b # ys)"
  define M where "M = levenshteinDistance (a # xs) ys"
  define N where "N = levenshteinDistance xs (b # ys)"
  define K where "K = levenshteinDistance (x # a # xs) ys"
  define J where "J = levenshteinDistance xs (y # b # ys)"
  have up: "L \<le> Suc M" "L \<le> Suc N"
    by (simp_all add: L_def M_def N_def)
  have ih: "M \<le> Suc K" "N \<le> Suc J"
    using "3.IH"(2)[of x y] "3.IH"(1)[of x y] by (simp_all only: M_def K_def N_def J_def)
  have el: "levenshteinDistance (x # a # xs) (b # ys) =
      min (min (Suc L) (Suc K)) (M + (if x = b then 0 else 1))"
    by (simp only: levenshteinDistance.simps L_def K_def M_def)
  have er: "levenshteinDistance (a # xs) (y # b # ys) =
      min (min (Suc J) (Suc L)) (N + (if a = y then 0 else 1))"
    by (simp only: levenshteinDistance.simps L_def J_def N_def)
  have "L \<le> Suc (levenshteinDistance (x # a # xs) (b # ys))"
    unfolding el using up ih by (simp add: min_def)
  moreover have "L \<le> Suc (levenshteinDistance (a # xs) (y # b # ys))"
    unfolding er using up ih by (simp add: min_def)
  ultimately show ?case by (simp only: L_def)
qed

lemma levenshteinDistance_Cons:
  "levenshteinDistance (x # xs) (y # ys) =
     (if x = y then levenshteinDistance xs ys
      else Suc (min (min (levenshteinDistance xs (y # ys)) (levenshteinDistance (x # xs) ys))
                    (levenshteinDistance xs ys)))"
  using lev_drop[of xs ys x x] by (auto simp: min_def)

lemmas levenshteinDistance_code [code] = levenshteinDistance.simps(1,2) levenshteinDistance_Cons

lemma finite_tokenSet: "finite (tokenSet s)"
  by (simp add: tokenSet_def)

lemma jaccard_self: "finite A \<Longrightarrow> jaccard A A = (if A = {} then 0 else 1)"
  by (simp add: jaccard_def)

lemma jaccard_sym: "jaccard A B = jaccard B A"
  by (simp add: jaccard_def Un_commute conj_commute)

lemma jaccard_bounds: "finite A \<Longrightarrow> finite B \<Longrightarrow> 0 \<le> jaccard A B \<and> jaccard A B \<le> 1"
proof -
  assume fin: "finite A" "finite B"
  have "{x \<in> A. x \<in> B} \<subseteq> A \<union> B" by blast
  then have "card {x \<in> A. x \<in> B} \<le> card (A \<union> B)"
    using fin by (simp add: card_mono)
  then show ?thesis
    by (simp add: jaccard_def Let_def)
qed

lemma similarity_same:
  "similarity a a = (if tokenSet (redactVolatile a) = {} then 4 / 10 else 1)"
  by (simp add: similarity_def Let_def levenshteinDistance_refl jaccard_self finite_tokenSet)

lemma similarity_sym: "similarity a b = similarity b a"
  by (simp add: similarity_def Let_def jaccard_sym[of "tokenSet (redactVolatile a)"]
      levenshteinDistance_sym[of "redactVolatile a"] max.commute)

lemma similarity_bounds: "0 \<le> similarity a b \<and> similarity a b \<le> 1"
proof -
  define j where "j = jaccard (tokenSet (redactVolatile a)) (tokenSet (redactVolatile b))"
  define d where "d = real (levenshteinDistance (redactVolatile a) (redactVolatile b)) /
      real (max (max (length (redactVolatile a)) (length (redactVolatile b))) 1)"
  define e where "e = 1 - min 1 d"
  have j: "0 \<le> j" "j \<le> 1"
    using jaccard_bounds[OF finite_tokenSet finite_tokenSet] by (simp_all add: j_def)
  have "0 \<le> d" by (simp add: d_def)
  then have e: "0 \<le> e" "e \<le> 1" by (simp_all add: e_def)
  have eq: "similarity a b = j * (6 / 10) + e * (4 / 10)"
    by (simp add: similarity_def Let_def j_def d_def e_def)
  have "0 \<le> j * (6 / 10) + e * (4 / 10)" using j e by simp
  moreover have "j * (6 / 10) + e * (4 / 10) \<le> 1" using j e by simp
  ultimately show ?thesis using eq by simp
qed

text \<open>
  C2, as the code has it. Comparing a text with itself gives edit similarity 1, and Jaccard
  similarity 1 only when the normalized text has a token: the guard \<open>uni.size ? ... : 0\<close>
  of \<open>jaccard\<close> gives 0 for two empty token sets. So \<open>similarity(a, a)\<close> is 1 when the
  normalized text has at least one token, and 0.4 when it has none.
\<close>

theorem similarity_self:
  "similarity a a = (if tokenSet (redactVolatile a) = {} then 4 / 10 else 1)"
  by (rule similarity_same)

theorem similarity_self_witness:
  "similarity ''user 1001'' ''user 1001'' = 1 \<and> similarity ''{}'' ''{}'' = 4 / 10"
proof -
  have some: "tokenSet (redactVolatile ''user 1001'') \<noteq> {}"
    by code_simp
  have none: "tokenSet (redactVolatile ''{}'') = {}"
    by code_simp
  show ?thesis
    using similarity_self [of "''user 1001''"] similarity_self [of "''{}''"] some none
    by simp
qed

text \<open>
  C2 as the specification states it fails: the empty text (an empty response body) has no
  token, and its similarity with itself is 0.4.
\<close>

theorem similarity_self_counterexample:
  "similarity '''' '''' = 4 / 10 \<and> similarity '''' '''' \<noteq> 1"
  by code_simp

text \<open>
  C8: \<open>similarity\<close> is symmetric, and its value lies between 0 and 1 for all strings.
\<close>

theorem similarity_sym_bounded:
  "similarity a b = similarity b a \<and> 0 \<le> similarity a b \<and> similarity a b \<le> 1"
  using similarity_sym[of a b] similarity_bounds[of a b] by simp

theorem similarity_sym_bounded_witness:
  "similarity ''ab'' ''ac'' = 1 / 5 \<and> similarity ''ac'' ''ab'' = 1 / 5"
proof -
  have "similarity ''ab'' ''ac'' = 1 / 5"
    by code_simp
  then show ?thesis
    using similarity_sym_bounded [of "''ab''" "''ac''"] by simp
qed

section \<open>Values on the example inputs\<close>

lemma ex_redact:
  "redactVolatile body1001 = body1001" "redactVolatile body1002 = body1002"
  by code_simp+

lemma ex_tokens:
  "tokenSet body1001 = {''id'', ''1001''}" "tokenSet body1002 = {''id'', ''1002''}"
  by code_simp+

lemma ex_jaccard: "jaccard {''id'', ''1001''} {''id'', ''1002''} = 1 / 3"
  by code_simp

lemma ex_lev: "levenshteinDistance body1001 body1002 = 1"
  by code_simp

lemma ex_length: "length body1001 = 13" "length body1002 = 13"
  by code_simp+

lemma ex_similarity: "similarity body1001 body1002 = 37 / 65"
  by (simp add: similarity_def Let_def ex_redact ex_tokens ex_jaccard ex_lev ex_length)

lemma ex_json:
  "jsonRoundTrip examplePlatform body1001 = Some body1001"
  "jsonRoundTrip examplePlatform body1002 = Some body1002"
  "jsonRoundTrip examplePlatform bodyDenied = Some bodyDenied"
  by code_simp+

lemma ex_ids:
  "idMatch body1001 = Some ''1001''" "idMatch body1002 = Some ''1002''" "idMatch bodyDenied = None"
  by code_simp+

lemma ex_includes:
  "includes_str body1002 ''1001'' = False" "includes_str bodyDenied ''1001'' = True"
  by code_simp+



section \<open>The scheduler with one worker\<close>

lemma successes_append: "successes (xs @ ys) = successes xs @ successes ys"
  by (induction xs rule: successes.induct) simp_all


lemma runner_from:
  "i \<le> length jobs \<Longrightarrow>
   runner jobs \<lparr>idx = i, out = acc, started = st, shared = w\<rparr> =
     \<lparr>idx = length jobs, out = acc @ successes (fst (eachOnce (drop i jobs) w)),
      started = st @ [i..<length jobs], shared = snd (eachOnce (drop i jobs) w)\<rparr>"
proof (induction "length jobs - i" arbitrary: i acc st w)
  case 0
  then show ?case by (subst runner.simps) simp
next
  case (Suc k)
  then have lt: "i < length jobs" by simp
  obtain r w' where job: "(jobs ! i) w = (r, w')" by (cases "(jobs ! i) w")
  obtain rs w'' where rest: "eachOnce (drop (Suc i) jobs) w' = (rs, w'')"
    by (cases "eachOnce (drop (Suc i) jobs) w'")
  have dr: "drop i jobs = jobs ! i # drop (Suc i) jobs"
    using lt by (simp add: Cons_nth_drop_Suc)
  have up: "[i..<length jobs] = i # [Suc i..<length jobs]"
    using lt by (simp add: upt_conv_Cons)
  have ih: "runner jobs \<lparr>idx = Suc i, out = acc', started = st @ [i], shared = w'\<rparr> =
      \<lparr>idx = length jobs, out = acc' @ successes rs,
       started = (st @ [i]) @ [Suc i..<length jobs], shared = w''\<rparr>" for acc'
    using Suc.hyps(1)[of "Suc i" acc' "st @ [i]" w'] Suc.hyps(2) lt rest by simp
  show ?case
    by (subst runner.simps) (cases r; simp add: lt job rest dr up ih)
qed

text \<open>
  C6: with \<open>maxConcurrency = 1\<close>, \<open>runWithConcurrency\<close> returns normally for every list of
  jobs; it starts the jobs \<open>0, 1, ...\<close> once each, in order; \<open>out\<close> holds exactly the
  results of the jobs that succeed, and the state is the one that running every job once
  leaves. A job that throws adds nothing to \<open>out\<close> and the jobs behind it still run.
\<close>

theorem runWithConcurrency_one:
  "runWithConcurrency jobs 1 w =
     Inr \<lparr>idx = length jobs, out = successes (fst (eachOnce jobs w)),
          started = [0..<length jobs], shared = snd (eachOnce jobs w)\<rparr>"
proof (cases jobs)
  case Nil
  then show ?thesis by (simp add: runWithConcurrency_def)
next
  case (Cons j js)
  then have n: "min 1 (real (length jobs)) = 1" by simp
  show ?thesis
    unfolding runWithConcurrency_def Let_def n
    using runner_from[of 0 jobs "[]" "[]" w] by simp
qed

theorem runWithConcurrency_one_witness:
  "runWithConcurrency
     [\<lambda>w. (Inr (1::nat), w + 1), \<lambda>w. (Inl TypeError, w + 10), \<lambda>w. (Inr 3, w + 100)] 1 (0::nat) =
   Inr \<lparr>idx = 3, out = [1, 3], started = [0, 1, 2], shared = 111\<rparr>"
  using runWithConcurrency_one
    [of "[\<lambda>w. (Inr (1::nat), w + 1), \<lambda>w. (Inl TypeError, w + 10), \<lambda>w. (Inr 3, w + 100)]" "0::nat"]
  by (simp add: upt_rec)


section \<open>The attacker vector\<close>






text \<open>
  C1, evaluated on the code. The victim's record is \<open>{"id":"1001"}\<close>; the target answers
  the attacker, whose own sample is \<open>1002\<close>, with status 200 and the attacker's own record
  \<open>{"id":"1002"}\<close>. The ID extracted from the attacker's body equals the attacker's sample,
  and the score is \<open>0.6 + 0.4 * similarity\<close>: nothing is subtracted, because line 179
  compares the ID of the victim's body, \<open>vIdStr\<close>, with the attacker's sample.
\<close>

theorem attacker_own_id_not_subtracted:
  "idMatch body1001 = Some ''1001'' \<and> idMatch body1002 = Some ''1002'' \<and>
   similarity body1001 body1002 = 37 / 65 \<and>
   attackerScore examplePlatform 200 body1001 200 body1002 (Some ''1002'') =
     (6 / 10 + (37 / 65) * (4 / 10), [SimilarityVictimAttacker (740 / 13)])"
  by (simp add: attackerScore_def Let_def is2xx_def ex_similarity ex_json ex_ids ex_includes)





section \<open>The unauthenticated vector\<close>






section \<open>The scan as a whole\<close>




lemma probeTask_fst:
  "fst (probeTask pf cfg net ep pv uv vi aid w) =
   fst (probeTask pf cfg net ep pv uv vi aid \<lparr>findings = [], requests = []\<rparr>)"
  by (simp add: probeTask_def Let_def split_beta split: fetch_result.splits option.splits sum.splits)



lemma world_eq: "(w :: 'h world) = \<lparr>findings = findings w, requests = requests w\<rparr>"
  by simp







lemma probeTask_baseline_fails:
  "net Victim = FetchFailed \<or> (\<exists>st. net Victim = Response st None) \<Longrightarrow>
   probeTask pf cfg net ep pv uv vi aid w =
     (Inr (), w\<lparr>requests := requests w @
        [\<lparr>who = Victim, url = uv, reqMethod = epMethod ep, reqHeaders = Some vi,
          timeout = timeoutMs cfg\<rparr>]\<rparr>)"
  by (auto simp: probeTask_def Let_def)


lemma buildUrl_error: "buildUrl pf b t qp = Inl e \<Longrightarrow> e = TypeError"
  by (auto simp: buildUrl_def split: option.splits)

lemma buildInit_error: "buildInit pf hs cs = Inl e \<Longrightarrow> e = TypeError"
  by (auto simp: buildInit_def split: option.splits if_splits)

lemma buildTasks_error: "buildTasks pf cfg i eps = Inl e \<Longrightarrow> e = TypeError"
proof (induction eps arbitrary: i)
  case Nil
  then show ?case by simp
next
  case (Cons ep eps)
  then show ?case
    by (auto simp: Let_def split: list.splits sum.splits dest: buildUrl_error buildInit_error)
qed

lemma buildTasks_fails:
  "ep \<in> set eps \<Longrightarrow> pathParams ep = p # ps \<Longrightarrow>
   buildUrl pf (baseUrl cfg) (victimPath pf ep p) [] = Inl e \<Longrightarrow>
   buildTasks pf cfg i eps = Inl TypeError"
proof (induction eps arbitrary: i)
  case Nil
  then show ?case by simp
next
  case (Cons a eps)
  show ?case
  proof (cases "a = ep")
    case True
    then show ?thesis
      using Cons.prems buildUrl_error[of pf "baseUrl cfg" "victimPath pf ep p" "[]" e]
      by (simp add: Let_def)
  next
    case False
    then have "buildTasks pf cfg (Suc i) eps = Inl TypeError"
      using Cons.IH Cons.prems by simp
    then show ?thesis
      by (auto simp: Let_def split: list.splits sum.splits dest: buildUrl_error buildInit_error)
  qed
qed

lemma POST_malformed_target:
  assumes "safeParse pf raw = Inr cfg"
    and "ep \<in> set (endpoints cfg)" "pathParams ep = p # ps"
    and "buildUrl pf (baseUrl cfg) (victimPath pf ep p) [] = Inl e"
  shows "POST pf (Some raw) net = \<lparr>response = Inl TypeError, calls = [], jobsStarted = []\<rparr>"
  using assms(1) buildTasks_fails[OF assms(2-4), of 0]
  by (simp add: POST_def)

section \<open>Validation issues\<close>


lemma zString_nonempty: "zString p v = Inl is \<Longrightarrow> is \<noteq> []"
  by (auto simp: zString_def split: option.splits json.splits)

lemma zUrl_nonempty: "zUrl pf p v = Inl is \<Longrightarrow> is \<noteq> []"
  by (auto simp: zUrl_def split: option.splits json.splits)

lemma zNumber_nonempty: "zNumber lo hi d p v = Inl is \<Longrightarrow> is \<noteq> []"
  by (auto simp: zNumber_def Let_def split: option.splits json.splits if_splits)

lemma zBooleanOptional_nonempty: "zBooleanOptional p v = Inl is \<Longrightarrow> is \<noteq> []"
  by (auto simp: zBooleanOptional_def split: option.splits json.splits)

lemma zArray_nonempty: "zArray n elem p v = Inl is \<Longrightarrow> is \<noteq> []"
  by (auto simp: zArray_def Let_def split: option.splits json.splits if_splits)

lemma zMethod_nonempty: "zMethod p v = Inl is \<Longrightarrow> is \<noteq> []"
  by (auto simp: zMethod_def split: option.splits json.splits if_splits)

lemma zBodyTemplate_nonempty: "zBodyTemplate p v = Inl is \<Longrightarrow> is \<noteq> []"
  by (auto simp: zBodyTemplate_def split: option.splits json.splits)

lemma zHeaders_nonempty: "zHeaders p v = Inl is \<Longrightarrow> is \<noteq> []"
  by (auto simp: zHeaders_def Let_def split: option.splits json.splits if_splits)

lemma errs_Inl: "errs (Inl is) = is" and errs_Inr: "errs (Inr a) = []"
  by (simp_all add: errs_def)

lemma zAuth_nonempty: "zAuth p v = Inl is \<Longrightarrow> is \<noteq> []"
  by (auto simp: zAuth_def Let_def errs_Inl errs_Inr split: option.splits json.splits sum.splits
      dest: zHeaders_nonempty)

lemma zAuthContexts_nonempty: "zAuthContexts p v = Inl is \<Longrightarrow> is \<noteq> []"
  by (auto simp: zAuthContexts_def Let_def errs_Inl errs_Inr map_sum_def
      split: option.splits json.splits sum.splits
      dest: zAuth_nonempty zBooleanOptional_nonempty)

lemma fieldIssues_simps:
  "fieldIssues pf kv ''baseUrl'' = errs (zUrl pf [Key ''baseUrl''] (map_of kv ''baseUrl''))"
  "fieldIssues pf kv ''endpoints'' = errs (zArray 1 zEndpoint [Key ''endpoints''] (map_of kv ''endpoints''))"
  "fieldIssues pf kv ''authContexts'' = errs (zAuthContexts [Key ''authContexts''] (map_of kv ''authContexts''))"
  "fieldIssues pf kv ''speedGateThreshold'' =
     errs (zNumber 0 1 (8 / 10) [Key ''speedGateThreshold''] (map_of kv ''speedGateThreshold''))"
  "fieldIssues pf kv ''maxConcurrency'' = errs (zNumber 1 12 5 [Key ''maxConcurrency''] (map_of kv ''maxConcurrency''))"
  "fieldIssues pf kv ''timeoutMs'' = errs (zNumber 1000 60000 8000 [Key ''timeoutMs''] (map_of kv ''timeoutMs''))"
  by (simp_all add: fieldIssues_def)

lemma safeParse_issues:
  "safeParse pf (JObj kv) = Inl issues \<Longrightarrow>
   issues = concat (map (fieldIssues pf kv) scanRequestKeys)"
  by (auto simp: safeParse_def split: sum.splits)

lemma safeParse_nonempty: "safeParse pf raw = Inl issues \<Longrightarrow> issues \<noteq> []"
proof (cases raw)
  case (JObj kv)
  assume a: "safeParse pf raw = Inl issues"
  then have "\<not> (\<exists>b e a s m t.
      zUrl pf [Key ''baseUrl''] (map_of kv ''baseUrl'') = Inr b \<and>
      zArray 1 zEndpoint [Key ''endpoints''] (map_of kv ''endpoints'') = Inr e \<and>
      zAuthContexts [Key ''authContexts''] (map_of kv ''authContexts'') = Inr a \<and>
      zNumber 0 1 (8 / 10) [Key ''speedGateThreshold''] (map_of kv ''speedGateThreshold'') = Inr s \<and>
      zNumber 1 12 5 [Key ''maxConcurrency''] (map_of kv ''maxConcurrency'') = Inr m \<and>
      zNumber 1000 60000 8000 [Key ''timeoutMs''] (map_of kv ''timeoutMs'') = Inr t)"
    using JObj by (auto simp: safeParse_def)
  then consider
      (1) iss where "zUrl pf [Key ''baseUrl''] (map_of kv ''baseUrl'') = Inl iss"
    | (2) iss where "zArray 1 zEndpoint [Key ''endpoints''] (map_of kv ''endpoints'') = Inl iss"
    | (3) iss where "zAuthContexts [Key ''authContexts''] (map_of kv ''authContexts'') = Inl iss"
    | (4) iss where "zNumber 0 1 (8 / 10) [Key ''speedGateThreshold''] (map_of kv ''speedGateThreshold'') = Inl iss"
    | (5) iss where "zNumber 1 12 5 [Key ''maxConcurrency''] (map_of kv ''maxConcurrency'') = Inl iss"
    | (6) iss where "zNumber 1000 60000 8000 [Key ''timeoutMs''] (map_of kv ''timeoutMs'') = Inl iss"
    by (metis sum.exhaust_sel sum.collapse)
  then have "\<exists>k \<in> set scanRequestKeys. fieldIssues pf kv k \<noteq> []"
  proof cases
    case 1 then show ?thesis using zUrl_nonempty[OF 1]
      by (simp add: scanRequestKeys_def fieldIssues_simps errs_Inl)
  next
    case 2 then show ?thesis using zArray_nonempty[OF 2]
      by (simp add: scanRequestKeys_def fieldIssues_simps errs_Inl)
  next
    case 3 then show ?thesis using zAuthContexts_nonempty[OF 3]
      by (simp add: scanRequestKeys_def fieldIssues_simps errs_Inl)
  next
    case 4 then show ?thesis using zNumber_nonempty[OF 4]
      by (simp add: scanRequestKeys_def fieldIssues_simps errs_Inl)
  next
    case 5 then show ?thesis using zNumber_nonempty[OF 5]
      by (simp add: scanRequestKeys_def fieldIssues_simps errs_Inl)
  next
    case 6 then show ?thesis using zNumber_nonempty[OF 6]
      by (simp add: scanRequestKeys_def fieldIssues_simps errs_Inl)
  qed
  then show ?thesis
    using safeParse_issues[of pf kv issues] a JObj by auto
qed (auto simp: safeParse_def)

text \<open>Every issue of a schema lies under the path the schema is applied at.\<close>

lemma under_append_one:
  assumes "take (length (p @ r)) q = p @ r"
  shows "take (length p) q = p"
proof -
  have "take (length p) q = take (length p) (take (length (p @ r)) q)"
    by (simp add: min_def)
  also have "\<dots> = take (length p) (p @ r)"
    using assms by simp
  finally show ?thesis by simp
qed

lemma under_append:
  "list_all (\<lambda>(q, c). take (length (p @ r)) q = p @ r) is \<Longrightarrow>
   list_all (\<lambda>(q, c). take (length p) q = p) is"
  by (induction "is") (auto dest: under_append_one[of p r, simplified])

lemma zString_under: "list_all (\<lambda>(q, c). take (length p) q = p) (errs (zString p v))"
  by (auto simp: zString_def errs_def split: option.splits json.splits)

lemma zUrl_under: "list_all (\<lambda>(q, c). take (length p) q = p) (errs (zUrl pf p v))"
  by (auto simp: zUrl_def errs_def split: option.splits json.splits)

lemma zNumber_under: "list_all (\<lambda>(q, c). take (length p) q = p) (errs (zNumber lo hi d p v))"
  by (auto simp: zNumber_def errs_def Let_def split: option.splits json.splits)

lemma zBooleanOptional_under: "list_all (\<lambda>(q, c). take (length p) q = p) (errs (zBooleanOptional p v))"
  by (auto simp: zBooleanOptional_def errs_def split: option.splits json.splits)

lemma zMethod_under: "list_all (\<lambda>(q, c). take (length p) q = p) (errs (zMethod p v))"
  by (auto simp: zMethod_def errs_def split: option.splits json.splits)

lemma zBodyTemplate_under: "list_all (\<lambda>(q, c). take (length p) q = p) (errs (zBodyTemplate p v))"
  by (auto simp: zBodyTemplate_def errs_def split: option.splits json.splits)

lemma list_all_concat_map:
  "(\<And>x. x \<in> set xs \<Longrightarrow> list_all P (f x)) \<Longrightarrow> list_all P (concat (map f xs))"
  by (induction xs) auto

lemma zArray_under:
  assumes "\<And>q x. list_all (\<lambda>(r, c). take (length q) r = q) (errs (elem q x))"
  shows "list_all (\<lambda>(q, c). take (length p) q = p) (errs (zArray n elem p v))"
proof (cases v)
  case None
  then show ?thesis by (simp add: zArray_def errs_def)
next
  case (Some j)
  show ?thesis
  proof (cases j)
    case (JArr xs)
    have el: "list_all (\<lambda>(q, c). take (length p) q = p) (errs (elem (p @ [Index i]) (Some x)))" for i x
      using under_append[OF assms[of "p @ [Index i]" "Some x"]] .
    have "list_all (\<lambda>(q, c). take (length p) q = p)
        (concat (map errs (map (\<lambda>(i, x). elem (p @ [Index i]) (Some x)) (enumerate 0 xs))))"
      unfolding map_map by (rule list_all_concat_map) (auto simp: el)
    then show ?thesis
      using Some JArr by (auto simp: zArray_def Let_def errs_def)
  qed (simp_all add: Some zArray_def errs_def)
qed

lemma errs_cases: "errs r = (case r of Inl is \<Rightarrow> is | Inr a \<Rightarrow> [])"
  by (simp add: errs_def)

lemma zParam_under: "list_all (\<lambda>(q, c). take (length p) q = p) (errs (zParam p v))"
proof -
  have a: "list_all (\<lambda>(q, c). take (length p) q = p) (errs (zString (p @ [Key ''name'']) x))" for x
    using under_append[OF zString_under[of "p @ [Key ''name'']" x]] .
  have b: "list_all (\<lambda>(q, c). take (length p) q = p) (errs (zArray 1 zString (p @ [Key ''samples'']) x))" for x
    using under_append[OF zArray_under[of zString "p @ [Key ''samples'']" 1 x, OF zString_under]] .
  show ?thesis
  proof (cases v)
    case None
    then show ?thesis by (simp add: zParam_def errs_def)
  next
    case (Some j)
    show ?thesis
    proof (cases j)
      case (JObj kv)
      show ?thesis
        using a[of "map_of kv ''name''"] b[of "map_of kv ''samples''"]
        by (cases "zString (p @ [Key ''name'']) (map_of kv ''name'')";
            cases "zArray 1 zString (p @ [Key ''samples'']) (map_of kv ''samples'')")
          (simp_all add: Some JObj zParam_def Let_def errs_Inl errs_Inr)
    qed (simp_all add: Some zParam_def errs_def)
  qed
qed

lemma errs_map_sum: "errs (map_sum id f r) = errs r"
  by (cases r) (simp_all add: errs_def)

lemma zEndpoint_under: "list_all (\<lambda>(q, c). take (length p) q = p) (errs (zEndpoint p v))"
proof -
  have m: "list_all (\<lambda>(q, c). take (length p) q = p) (errs (zMethod (p @ [Key ''method'']) x))" for x
    using under_append[OF zMethod_under[of "p @ [Key ''method'']" x]] .
  have t: "list_all (\<lambda>(q, c). take (length p) q = p) (errs (zString (p @ [Key ''pathTemplate'']) x))" for x
    using under_append[OF zString_under[of "p @ [Key ''pathTemplate'']" x]] .
  have pp: "list_all (\<lambda>(q, c). take (length p) q = p) (errs (zArray 0 zParam (p @ [Key ''pathParams'']) x))" for x
    using under_append[OF zArray_under[of zParam "p @ [Key ''pathParams'']" 0 x, OF zParam_under]] .
  have qp: "list_all (\<lambda>(q, c). take (length p) q = p) (errs (zArray 0 zParam (p @ [Key ''queryParams'']) x))" for x
    using under_append[OF zArray_under[of zParam "p @ [Key ''queryParams'']" 0 x, OF zParam_under]] .
  have b: "list_all (\<lambda>(q, c). take (length p) q = p) (errs (zBodyTemplate (p @ [Key ''bodyTemplate'']) x))" for x
    using under_append[OF zBodyTemplate_under[of "p @ [Key ''bodyTemplate'']" x]] .
  show ?thesis
  proof (cases v)
    case None
    then show ?thesis by (simp add: zEndpoint_def errs_def)
  next
    case (Some j)
    show ?thesis
    proof (cases j)
      case (JObj kv)
      define rm where "rm = zMethod (p @ [Key ''method'']) (map_of kv ''method'')"
      define rt where "rt = zString (p @ [Key ''pathTemplate'']) (map_of kv ''pathTemplate'')"
      define rp where "rp = (case map_of kv ''pathParams'' of
                       None \<Rightarrow> Inr []
                     | Some x \<Rightarrow> zArray 0 zParam (p @ [Key ''pathParams'']) (Some x))"
      define rq where "rq = (case map_of kv ''queryParams'' of
                       None \<Rightarrow> Inr None
                     | Some x \<Rightarrow> map_sum id Some (zArray 0 zParam (p @ [Key ''queryParams'']) (Some x)))"
      define rb where "rb = zBodyTemplate (p @ [Key ''bodyTemplate'']) (map_of kv ''bodyTemplate'')"
      have all: "list_all (\<lambda>(q, c). take (length p) q = p) (errs rm @ errs rt @ errs rp @ errs rq @ errs rb)"
        using m t pp qp b
        by (auto simp: rm_def rt_def rp_def rq_def rb_def errs_map_sum errs_Inr split: option.splits)
      have "zEndpoint p v = (case (rm, rt, rp, rq, rb) of
                (Inr m', Inr t', Inr pp', Inr qp', Inr b') \<Rightarrow>
                  Inr \<lparr>epMethod = m', pathTemplate = t', pathParams = pp', queryParams = qp',
                       bodyTemplate = b'\<rparr>
              | _ \<Rightarrow> Inl (errs rm @ errs rt @ errs rp @ errs rq @ errs rb))"
        unfolding rm_def rt_def rp_def rq_def rb_def by (simp add: Some JObj zEndpoint_def Let_def)
      then have "errs (zEndpoint p v) = [] \<or> errs (zEndpoint p v) = errs rm @ errs rt @ errs rp @ errs rq @ errs rb"
        by (auto simp: errs_Inl errs_Inr split: sum.splits)
      then show ?thesis using all by auto
    qed (simp_all add: Some zEndpoint_def errs_def)
  qed
qed

lemma zHeaders_under: "list_all (\<lambda>(q, c). take (length p) q = p) (errs (zHeaders p v))"
proof (cases v)
  case None
  then show ?thesis by (simp add: zHeaders_def errs_def)
next
  case (Some j)
  show ?thesis
  proof (cases j)
    case (JObj kv)
    have el: "list_all (\<lambda>(q, c). take (length p) q = p) (errs (zString (p @ [Key k]) x))" for k x
      using under_append[OF zString_under[of "p @ [Key k]" x]] .
    have "list_all (\<lambda>(q, c). take (length p) q = p)
        (concat (map errs (map (\<lambda>(k, x). map_sum id (Pair k) (zString (p @ [Key k]) (Some x))) kv)))"
      unfolding map_map by (rule list_all_concat_map) (auto simp: el errs_map_sum)
    then show ?thesis
      using Some JObj by (auto simp: zHeaders_def Let_def errs_Inl errs_Inr)
  qed (simp_all add: Some zHeaders_def errs_def)
qed

lemma zAuth_under: "list_all (\<lambda>(q, c). take (length p) q = p) (errs (zAuth p v))"
proof (cases v)
  case None
  then show ?thesis by (simp add: zAuth_def errs_def)
next
  case (Some j)
  show ?thesis
  proof (cases j)
    case (JObj kv)
    define rh where "rh = zHeaders (p @ [Key ''headers'']) (map_of kv ''headers'')"
    define rc where "rc = zHeaders (p @ [Key ''cookies'']) (map_of kv ''cookies'')"
    have all: "list_all (\<lambda>(q, c). take (length p) q = p) (errs rh @ errs rc)"
      using under_append[OF zHeaders_under[of "p @ [Key ''headers'']" "map_of kv ''headers''"]]
        under_append[OF zHeaders_under[of "p @ [Key ''cookies'']" "map_of kv ''cookies''"]]
      by (simp add: rh_def rc_def)
    have "zAuth p v = (case (rh, rc) of
                (Inr h', Inr c') \<Rightarrow> Inr \<lparr>headers = h', cookies = c'\<rparr>
              | _ \<Rightarrow> Inl (errs rh @ errs rc))"
      unfolding rh_def rc_def by (simp add: Some JObj zAuth_def Let_def)
    then have "errs (zAuth p v) = [] \<or> errs (zAuth p v) = errs rh @ errs rc"
      by (auto simp: errs_Inl errs_Inr split: sum.splits)
    then show ?thesis using all by auto
  qed (simp_all add: Some zAuth_def errs_def)
qed

lemma zAuthContexts_under: "list_all (\<lambda>(q, c). take (length p) q = p) (errs (zAuthContexts p v))"
proof (cases v)
  case None
  then show ?thesis by (simp add: zAuthContexts_def errs_def)
next
  case (Some j)
  show ?thesis
  proof (cases j)
    case (JObj kv)
    define rv where "rv = zAuth (p @ [Key ''victim'']) (map_of kv ''victim'')"
    define ra where "ra = (case map_of kv ''attacker'' of
                       None \<Rightarrow> Inr None
                     | Some x \<Rightarrow> map_sum id Some (zAuth (p @ [Key ''attacker'']) (Some x)))"
    define ru where "ru = zBooleanOptional (p @ [Key ''unauthenticated'']) (map_of kv ''unauthenticated'')"
    have all: "list_all (\<lambda>(q, c). take (length p) q = p) (errs rv @ errs ra @ errs ru)"
      using under_append[OF zAuth_under[of "p @ [Key ''victim'']" "map_of kv ''victim''"]]
        under_append[OF zAuth_under[of "p @ [Key ''attacker'']" "map_of kv ''attacker''"]]
        under_append[OF zBooleanOptional_under[of "p @ [Key ''unauthenticated'']" "map_of kv ''unauthenticated''"]]
      by (auto simp: rv_def ra_def ru_def errs_map_sum errs_Inr split: option.splits)
    have "zAuthContexts p v = (case (rv, ra, ru) of
                (Inr vi', Inr atk', Inr un') \<Rightarrow>
                  Inr \<lparr>victim = vi', attacker = atk', unauthenticated = un'\<rparr>
              | _ \<Rightarrow> Inl (errs rv @ errs ra @ errs ru))"
      unfolding rv_def ra_def ru_def by (simp add: Some JObj zAuthContexts_def Let_def)
    then have "errs (zAuthContexts p v) = [] \<or> errs (zAuthContexts p v) = errs rv @ errs ra @ errs ru"
      by (auto simp: errs_Inl errs_Inr split: sum.splits)
    then show ?thesis using all by auto
  qed (simp_all add: Some zAuthContexts_def errs_def)
qed

lemma under_key:
  "list_all (\<lambda>(q, c). take (length [Key k]) q = [Key k]) is \<Longrightarrow>
   list_all (\<lambda>(q, c). q \<noteq> [] \<and> hd q = Key k) is"
proof -
  have one: "take (length [Key k]) q = [Key k] \<Longrightarrow> q \<noteq> [] \<and> hd q = Key k" for q :: "seg list"
    by (cases q) simp_all
  show "list_all (\<lambda>(q, c). take (length [Key k]) q = [Key k]) is \<Longrightarrow>
   list_all (\<lambda>(q, c). q \<noteq> [] \<and> hd q = Key k) is"
    by (induction "is") (auto dest: one simp del: length_Cons list.size take_Suc_Cons)
qed

lemma fieldIssues_under:
  "list_all (\<lambda>(q, c). q \<noteq> [] \<and> hd q = Key k) (fieldIssues pf kv k)"
proof -
  have "list_all (\<lambda>(q, c). take (length [Key k]) q = [Key k]) (fieldIssues pf kv k)"
    unfolding fieldIssues_def
    using zUrl_under[of "[Key k]" pf "map_of kv k"]
      zArray_under[of zEndpoint "[Key k]" 1 "map_of kv k", OF zEndpoint_under]
      zAuthContexts_under[of "[Key k]" "map_of kv k"]
      zNumber_under[of "[Key k]" 0 1 "8 / 10" "map_of kv k"]
      zNumber_under[of "[Key k]" 1 12 5 "map_of kv k"]
      zNumber_under[of "[Key k]" 1000 60000 8000 "map_of kv k"]
    by (auto simp del: length_Cons list.size split: if_splits)
  then show ?thesis by (rule under_key)
qed

text \<open>\<open>flatten\<close> lists, under every key, the codes of all the issues under that key.\<close>

lemma addFieldError_lookup:
  "map_of (addFieldError k c acc) k' =
     (if k' = k then Some ((case map_of acc k of None \<Rightarrow> [] | Some cs \<Rightarrow> cs) @ [c])
      else map_of acc k')"
  by (induction acc) auto

lemma fieldErrors_fold:
  "map_of (fold (\<lambda>(p, c) acc. case p of [] \<Rightarrow> acc | k # _ \<Rightarrow> addFieldError k c acc) is acc) k =
     (if map snd (filter (\<lambda>(p, c). p \<noteq> [] \<and> hd p = k) is) = [] then map_of acc k
      else Some ((case map_of acc k of None \<Rightarrow> [] | Some cs \<Rightarrow> cs) @
                 map snd (filter (\<lambda>(p, c). p \<noteq> [] \<and> hd p = k) is)))"
proof (induction "is" arbitrary: acc)
  case Nil
  then show ?case by simp
next
  case (Cons i "is")
  obtain p c where i: "i = (p, c)" by (cases i)
  show ?case
  proof (cases p)
    case Nil
    then show ?thesis using Cons.IH[of acc] by (simp add: i)
  next
    case (Cons k' r)
    show ?thesis
      using Cons.IH[of "addFieldError k' c acc"]
      by (auto simp: i Cons addFieldError_lookup split: option.splits)
  qed
qed

lemma flatten_field:
  "map_of (fieldErrors (flatten is)) k =
     (if map snd (filter (\<lambda>(p, c). p \<noteq> [] \<and> hd p = k) is) = [] then None
      else Some (map snd (filter (\<lambda>(p, c). p \<noteq> [] \<and> hd p = k) is)))"
  by (simp add: flatten_def fieldErrors_fold)

lemma filter_key_same:
  "list_all (\<lambda>(q, c). q \<noteq> [] \<and> hd q = Key k) xs \<Longrightarrow>
   filter (\<lambda>(p, c). p \<noteq> [] \<and> hd p = Key k) xs = xs"
  by (induction xs) auto

lemma filter_key_other:
  "list_all (\<lambda>(q, c). q \<noteq> [] \<and> hd q = Key k') xs \<Longrightarrow> k \<noteq> k' \<Longrightarrow>
   filter (\<lambda>(p, c). p \<noteq> [] \<and> hd p = Key k) xs = []"
  by (induction xs) auto

lemma filter_fieldIssues:
  "filter (\<lambda>(p, c). p \<noteq> [] \<and> hd p = Key k) (fieldIssues pf kv k') =
     (if k = k' then fieldIssues pf kv k' else [])"
  using filter_key_same[OF fieldIssues_under[of k' pf kv]]
    filter_key_other[OF fieldIssues_under[of k' pf kv], of k]
  by auto

lemma reported_fields:
  assumes "k \<in> set scanRequestKeys" "fieldIssues pf kv k \<noteq> []"
  shows "map_of (fieldErrors (flatten (concat (map (fieldIssues pf kv) scanRequestKeys)))) (Key k) =
     Some (map snd (fieldIssues pf kv k))"
proof -
  have "filter (\<lambda>(p, c). p \<noteq> [] \<and> hd p = Key k) (concat (map (fieldIssues pf kv) scanRequestKeys)) =
      fieldIssues pf kv k"
    using assms(1) by (auto simp: scanRequestKeys_def filter_fieldIssues)
  then show ?thesis
    using assms(2) by (simp add: flatten_field)
qed

lemma POST_invalid:
  assumes "safeParse pf raw = Inl issues"
  shows "POST pf (Some raw) net =
           \<lparr>response = Inr (BadRequest (flatten issues)), calls = [], jobsStarted = []\<rparr> \<and>
         issues \<noteq> [] \<and>
         (\<forall>kv. raw = JObj kv \<longrightarrow>
            (\<forall>k \<in> set scanRequestKeys. fieldIssues pf kv k \<noteq> [] \<longrightarrow>
               map_of (fieldErrors (flatten issues)) (Key k) = Some (map snd (fieldIssues pf kv k))))"
  using assms safeParse_nonempty[OF assms] reported_fields[of _ pf] safeParse_issues[of pf _ issues]
  by (auto simp: POST_def)

section \<open>The example scans\<close>


lemma ex_parse:
  "safeParse examplePlatform exampleRequest = Inr exampleConfig"
  "safeParse examplePlatform malformedRequest = Inr malformedConfig"
  "safeParse examplePlatform badAttackerRequest = Inr badAttackerConfig"
  by code_simp+










lemma ex_invalid:
  "safeParse examplePlatform invalidRequest =
     Inl [([Key ''baseUrl''], invalid_string), ([Key ''endpoints''], too_small),
          ([Key ''authContexts''], invalid_type), ([Key ''maxConcurrency''], too_big)]"
  by code_simp

lemma ex_flatten:
  "flatten [([Key ''baseUrl''], invalid_string), ([Key ''endpoints''], too_small),
          ([Key ''authContexts''], invalid_type), ([Key ''maxConcurrency''], too_big)] =
   \<lparr>formErrors = [],
    fieldErrors = [(Key ''baseUrl'', [invalid_string]), (Key ''endpoints'', [too_small]),
                   (Key ''authContexts'', [invalid_type]), (Key ''maxConcurrency'', [too_big])]\<rparr>"
  by code_simp

lemma ex_malformed:
  "spaceEndpoint \<in> set (endpoints malformedConfig)"
  "pathParams spaceEndpoint = [\<lparr>name = ''id'', samples = [''1'']\<rparr>]"
  "buildUrl examplePlatform (baseUrl malformedConfig)
     (victimPath examplePlatform spaceEndpoint \<lparr>name = ''id'', samples = [''1'']\<rparr>) [] = Inl TypeError"
  "buildUrl examplePlatform (baseUrl malformedConfig)
     (victimPath examplePlatform okEndpoint \<lparr>name = ''id'', samples = [''1'']\<rparr>) [] = Inr ''x://ok/1''"
  by code_simp+

lemma ex_post_malformed:
  "POST examplePlatform (Some malformedRequest) deadNet =
     \<lparr>response = Inl TypeError, calls = [], jobsStarted = []\<rparr>"
  by code_simp



section \<open>Claims about the scan\<close>

text \<open>
  C4, as the code has it. \<open>buildUrl\<close> is called for every endpoint in the loop of \<open>POST\<close>
  that builds the jobs, outside every \<open>try\<close>. When \<open>new URL\<close> refuses the URL of one
  endpoint that has a path parameter, the \<open>TypeError\<close> leaves \<open>POST\<close>: no job is started,
  no request is made and no findings are returned, for any endpoint.
\<close>

theorem malformed_target_aborts_scan:
  assumes "safeParse pf raw = Inr cfg"
    and "ep \<in> set (endpoints cfg)" "pathParams ep = p # ps"
    and "buildUrl pf (baseUrl cfg) (victimPath pf ep p) [] = Inl e"
  shows "POST pf (Some raw) net = \<lparr>response = Inl TypeError, calls = [], jobsStarted = []\<rparr>"
  using assms by (rule POST_malformed_target)

theorem malformed_target_aborts_scan_witness:
  "safeParse examplePlatform malformedRequest = Inr malformedConfig \<and>
   spaceEndpoint \<in> set (endpoints malformedConfig) \<and>
   buildUrl examplePlatform (baseUrl malformedConfig)
     (victimPath examplePlatform spaceEndpoint \<lparr>name = ''id'', samples = [''1'']\<rparr>) [] = Inl TypeError \<and>
   POST examplePlatform (Some malformedRequest) exampleNet =
     \<lparr>response = Inl TypeError, calls = [], jobsStarted = []\<rparr>"
  using malformed_target_aborts_scan [OF ex_parse(2) ex_malformed(1,2,3), of exampleNet]
    ex_parse(2) ex_malformed(1,3)
  by simp

text \<open>
  C4 as the specification states it fails. The base \<open>x://\<close> passes the validation; the
  first endpoint resolves to a URL, the second to \<open>x://a b/1\<close>, which \<open>new URL\<close> refuses.
  The scan ends with the \<open>TypeError\<close>, and the job of the first endpoint is never started.
\<close>

theorem malformed_target_counterexample:
  "safeParse examplePlatform malformedRequest = Inr malformedConfig \<and>
   endpoints malformedConfig = [okEndpoint, spaceEndpoint] \<and>
   buildUrl examplePlatform (baseUrl malformedConfig)
     (victimPath examplePlatform okEndpoint \<lparr>name = ''id'', samples = [''1'']\<rparr>) [] = Inr ''x://ok/1'' \<and>
   buildUrl examplePlatform (baseUrl malformedConfig)
     (victimPath examplePlatform spaceEndpoint \<lparr>name = ''id'', samples = [''1'']\<rparr>) [] = Inl TypeError \<and>
   POST examplePlatform (Some malformedRequest) deadNet =
     \<lparr>response = Inl TypeError, calls = [], jobsStarted = []\<rparr>"
  using ex_parse(2) ex_malformed(3,4) ex_post_malformed
  by (simp add: malformedConfig_def)



text \<open>
  C7. A request body that \<open>ScanRequestSchema\<close> refuses is answered with status 400 and the
  flattened issues; no call of \<open>timedFetch\<close> is made and no job is started, whatever the
  network would answer. There is at least one issue, and for a body that is an object
  every key of the schema that has issues is listed with all its issues.
\<close>

theorem invalid_request_rejected:
  assumes "safeParse pf raw = Inl issues"
  shows "POST pf (Some raw) net =
           \<lparr>response = Inr (BadRequest (flatten issues)), calls = [], jobsStarted = []\<rparr> \<and>
         issues \<noteq> [] \<and>
         (\<forall>kv. raw = JObj kv \<longrightarrow>
            (\<forall>k \<in> set scanRequestKeys. fieldIssues pf kv k \<noteq> [] \<longrightarrow>
               map_of (fieldErrors (flatten issues)) (Key k) = Some (map snd (fieldIssues pf kv k))))"
  using assms by (rule POST_invalid)

theorem invalid_request_rejected_witness:
  "safeParse examplePlatform invalidRequest =
     Inl [([Key ''baseUrl''], invalid_string), ([Key ''endpoints''], too_small),
          ([Key ''authContexts''], invalid_type), ([Key ''maxConcurrency''], too_big)] \<and>
   POST examplePlatform (Some invalidRequest) exampleNet =
     \<lparr>response = Inr (BadRequest
        \<lparr>formErrors = [],
         fieldErrors = [(Key ''baseUrl'', [invalid_string]), (Key ''endpoints'', [too_small]),
                        (Key ''authContexts'', [invalid_type]), (Key ''maxConcurrency'', [too_big])]\<rparr>),
      calls = [], jobsStarted = []\<rparr>"
  using invalid_request_rejected [OF ex_invalid, of exampleNet] ex_invalid
  by (simp add: ex_flatten)




section \<open>The normalizer \<open>redactVolatile\<close> is idempotent\<close>

subsection \<open>The number pass leaves no match behind\<close>

declare numScan.simps(2) [simp del] uuidScan.simps(2) [simp del] tsScan.simps(2) [simp del]

lemma literal_chars:
  "\<not> isDigit CHR ''<''" "\<not> isDigit CHR ''>''" "\<not> isDigit CHR ''n''" "\<not> isDigit CHR ''u''"
  "\<not> isDigit CHR ''m''" "\<not> isDigit CHR ''i''" "\<not> isDigit CHR ''d''" "\<not> isDigit CHR ''t''"
  "\<not> isDigit CHR ''s''" "\<not> isDigit CHR '':''" "\<not> isDigit CHR 0x22"
  "\<not> isWord CHR ''<''" "\<not> isWord CHR ''>''" "\<not> isWord CHR '':''" "\<not> isWord CHR 0x22"
  "isWord CHR ''n''" "isWord CHR ''u''" "isWord CHR ''m''" "isWord CHR ''i''" "isWord CHR ''d''"
  "isWord CHR ''t''" "isWord CHR ''s''"
  "\<not> isHex CHR ''<''" "\<not> isHex CHR ''>''" "\<not> isHex CHR ''u''" "\<not> isHex CHR ''i''"
  "\<not> isHex CHR ''t''" "\<not> isHex CHR ''s''" "\<not> isHex CHR '':''" "\<not> isHex CHR 0x22"
  "\<not> isQuote CHR ''<''" "\<not> isQuote CHR ''>''" "\<not> isQuote CHR ''t''" "\<not> isQuote CHR ''s''"
  "\<not> isQuote CHR '':''" "isQuote CHR 0x22" "\<not> isSpace CHR '':''" "\<not> isSpace CHR 0x22"
  by (simp_all add: char_class_defs)

lemma numFree_fixed: "numFree p s \<Longrightarrow> numScan p s = s"
  by (induction p s rule: numFree.induct) (simp_all add: numScan.simps(2))

lemma uuidFree_fixed: "uuidFree p s \<Longrightarrow> uuidScan p s = s"
  by (induction p s rule: uuidFree.induct) (simp_all add: uuidScan.simps(2))

lemma isDigit_isWord: "isDigit c \<Longrightarrow> isWord c"
  by (simp add: isWord_def)

lemma numAt_head: "numAt p (c # cs) \<Longrightarrow> isDigit c \<and> \<not> p"
  by (cases "isDigit c") (simp_all add: numAt_def)

lemma numAt_nondigit: "\<not> isDigit c \<Longrightarrow> \<not> numAt p (c # cs)"
  using numAt_head by blast

lemma numAt_prev: "\<not> numAt True s"
  by (simp add: numAt_def)

text \<open>what \<open>numAt\<close> looks at: the digits at the start and the character behind them\<close>

lemma numAt_cong:
  "takeWhile isDigit s = takeWhile isDigit t \<Longrightarrow>
   take (Suc 0) (dropWhile isDigit s) = take (Suc 0) (dropWhile isDigit t) \<Longrightarrow>
   numAt p s = numAt p t"
proof -
  assume a: "takeWhile isDigit s = takeWhile isDigit t"
    and b: "take (Suc 0) (dropWhile isDigit s) = take (Suc 0) (dropWhile isDigit t)"
  have one: "(case xs of [] \<Rightarrow> True | c # _ \<Rightarrow> \<not> isWord c) =
      (case take (Suc 0) xs of [] \<Rightarrow> True | c # _ \<Rightarrow> \<not> isWord c)" for xs :: string
    by (cases xs) simp_all
  have "(case dropWhile isDigit s of [] \<Rightarrow> True | c # _ \<Rightarrow> \<not> isWord c) =
        (case dropWhile isDigit t of [] \<Rightarrow> True | c # _ \<Rightarrow> \<not> isWord c)"
    by (simp only: one[of "dropWhile isDigit s"] one[of "dropWhile isDigit t"] b)
  then show ?thesis using a by (simp add: numAt_def)
qed

lemma numScan_True_Cons: "numScan True (c # cs) = c # numScan (isWord c) cs"
  by (simp add: numAt_prev numScan.simps(2))

lemma numScan_nondigit: "\<not> isDigit c \<Longrightarrow> numScan p (c # cs) = c # numScan (isWord c) cs"
  by (simp add: numAt_nondigit numScan.simps(2))

lemma numScan_digits:
  "takeWhile isDigit (numScan True s) = takeWhile isDigit s \<and>
   take (Suc 0) (dropWhile isDigit (numScan True s)) = take (Suc 0) (dropWhile isDigit s)"
proof (induction s)
  case Nil
  then show ?case by simp
next
  case (Cons c cs)
  show ?case
  proof (cases "isDigit c")
    case True
    then show ?thesis using Cons by (simp add: numScan_True_Cons isDigit_isWord)
  next
    case False
    then show ?thesis by (simp add: numScan_True_Cons)
  qed
qed

lemma numScan_no_head: "\<not> numAt p (numScan p s)"
proof (cases s)
  case Nil
  then show ?thesis by (simp add: numAt_def)
next
  case (Cons c cs)
  show ?thesis
  proof (cases "numAt p (c # cs)")
    case True
    then show ?thesis by (simp add: Cons numScan.simps(2) numAt_nondigit literal_chars)
  next
    case False
    show ?thesis
    proof (cases "isDigit c")
      case True
      have "numAt p (c # numScan True cs) = numAt p (c # cs)"
        by (rule numAt_cong) (simp_all add: True numScan_digits)
      then show ?thesis using False True by (simp add: Cons isDigit_isWord numScan.simps(2))
    next
      case nd: False
      then show ?thesis using False by (simp add: Cons numAt_nondigit numScan.simps(2))
    qed
  qed
qed

lemma numFree_flag: "s = [] \<or> \<not> isDigit (hd s) \<Longrightarrow> numFree p s = numFree q s"
  by (cases s) (auto simp: numAt_nondigit)

lemma numScan_hd: "s \<noteq> [] \<Longrightarrow> \<not> isDigit (hd s) \<Longrightarrow> numScan p s \<noteq> [] \<and> hd (numScan p s) = hd s"
  by (cases s) (simp_all add: numScan_nondigit)

lemma numScan_Nil: "numScan p s = [] \<longleftrightarrow> s = []"
  by (cases s) (simp_all add: numScan.simps(2))

lemma numFree_nodigits:
  "list_all (\<lambda>c. \<not> isDigit c) u \<Longrightarrow> u \<noteq> [] \<Longrightarrow> numFree p (u @ x) = numFree (isWord (last u)) x"
  by (induction u arbitrary: p) (auto simp: numAt_nondigit)

lemma numFree_numScan: "numFree p (numScan p s)"
proof (induction p s rule: numScan.induct)
  case (1 prev)
  then show ?case by simp
next
  case (2 prev c cs)
  show ?case
  proof (cases "numAt prev (c # cs)")
    case True
    define r where "r = dropWhile isDigit (c # cs)"
    have r: "r = [] \<or> \<not> isWord (hd r)"
      using True by (cases r) (simp_all add: numAt_def r_def)
    then have "r = [] \<or> \<not> isDigit (hd r)" using isDigit_isWord by blast
    then have "numScan True r = [] \<or> \<not> isDigit (hd (numScan True r))"
      using numScan_hd[of r True] numScan_Nil[of True r] by auto
    then have "numFree False (numScan True r) = numFree True (numScan True r)"
      by (rule numFree_flag)
    moreover have "numFree True (numScan True r)"
      using "2.IH"(1)[OF True] by (simp add: r_def)
    moreover have "numFree prev (''<num>'' @ numScan True r) = numFree (isWord (last ''<num>'')) (numScan True r)"
      by (rule numFree_nodigits) (simp_all add: literal_chars)
    ultimately show ?thesis using True by (simp add: r_def literal_chars numScan.simps(2))
  next
    case False
    have "\<not> numAt prev (numScan prev (c # cs))" by (rule numScan_no_head)
    then show ?thesis using False "2.IH"(2)[OF False] by (simp add: numScan.simps(2))
  qed
qed

lemma numFree_suffix: "numFree p (u @ r) \<Longrightarrow> u \<noteq> [] \<Longrightarrow> numFree (isWord (last u)) r"
  by (induction u arbitrary: p) (auto split: if_splits)

subsection \<open>The identifier pass keeps the text free of matches\<close>


lemma isHex_isWord: "isHex c \<Longrightarrow> isWord c"
  by (auto simp: char_class_defs)

lemma isDigit_isHex: "isDigit c \<Longrightarrow> isHex c"
  by (simp add: isHex_def)

lemma uuidAt_prev: "\<not> uuidAt True s"
  by (simp add: uuidAt_def)

lemma list_all2_pred:
  "list_all2 (\<lambda>p c. p c) ps xs \<Longrightarrow> (\<And>p c. p \<in> set ps \<Longrightarrow> p c \<Longrightarrow> Q c) \<Longrightarrow> list_all Q xs"
  by (induction ps xs rule: list_all2_induct) auto

lemma uuidPattern_HD: "p \<in> set uuidPattern \<Longrightarrow> p c \<Longrightarrow> isHD c"
  by (auto simp: uuidPattern_def isHD_def char_class_defs)

lemma uuidPattern_length: "length uuidPattern = 36"
  by (simp add: uuidPattern_def)

lemma uuidPattern_ends: "uuidPattern ! 0 = isHex" "uuidPattern ! 35 = isHex"
  by (simp_all add: uuidPattern_def nth_append)

lemma uuidAt_D:
  assumes "uuidAt p s"
  shows "\<not> p" "36 \<le> length s" "list_all isHD (take 36 s)" "isHex (s ! 0)" "isHex (s ! 35)"
    "drop 36 s = [] \<or> \<not> isWord (hd (drop 36 s))"
proof -
  have m: "list_all2 (\<lambda>p c. p c) uuidPattern (take 36 s)" and l: "36 \<le> length s"
    using assms by (simp_all add: uuidAt_def)
  show "\<not> p" "36 \<le> length s" using assms by (simp_all add: uuidAt_def)
  show "list_all isHD (take 36 s)"
    using list_all2_pred[OF m, of isHD] uuidPattern_HD by blast
  have "(uuidPattern ! 0) (take 36 s ! 0)" "(uuidPattern ! 35) (take 36 s ! 35)"
    using list_all2_nthD[OF m, of 0] list_all2_nthD[OF m, of 35] by (simp_all add: uuidPattern_length)
  then show "isHex (s ! 0)" "isHex (s ! 35)"
    by (simp_all add: uuidPattern_ends)
  show "drop 36 s = [] \<or> \<not> isWord (hd (drop 36 s))"
    using assms by (cases "drop 36 s") (simp_all add: uuidAt_def)
qed

lemma uuidAt_head: "uuidAt p (c # cs) \<Longrightarrow> isHex c \<and> \<not> p"
  using uuidAt_D(1,4)[of p "c # cs"] by simp

lemma uuidAt_nonhex: "\<not> isHex c \<Longrightarrow> \<not> uuidAt p (c # cs)"
  using uuidAt_head by blast

lemma uuidScan_True_Cons: "uuidScan True (c # cs) = c # uuidScan (isWord c) cs"
  by (simp add: uuidAt_prev uuidScan.simps(2))

lemma uuidScan_nonhex: "\<not> isHex c \<Longrightarrow> uuidScan p (c # cs) = c # uuidScan (isWord c) cs"
  by (simp add: uuidAt_nonhex uuidScan.simps(2))

lemma uuidScan_Nil: "uuidScan p s = [] \<longleftrightarrow> s = []"
  by (cases s) (simp_all add: uuidScan.simps(2))

lemma uuidScan_digits:
  "takeWhile isDigit (uuidScan True s) = takeWhile isDigit s \<and>
   take (Suc 0) (dropWhile isDigit (uuidScan True s)) = take (Suc 0) (dropWhile isDigit s)"
proof (induction s)
  case Nil
  then show ?case by simp
next
  case (Cons c cs)
  show ?case
  proof (cases "isDigit c")
    case True
    then show ?thesis using Cons by (simp add: uuidScan_True_Cons isDigit_isWord)
  next
    case False
    then show ?thesis by (simp add: uuidScan_True_Cons)
  qed
qed

lemma uuidScan_True_hd:
  "r = [] \<or> \<not> isWord (hd r) \<Longrightarrow>
   uuidScan True r = [] \<or> (\<not> isWord (hd (uuidScan True r)))"
  by (cases r) (simp_all add: uuidScan_True_Cons)

lemma numFree_uuidScan: "numFree p s \<Longrightarrow> numFree p (uuidScan p s)"
proof (induction p s rule: uuidScan.induct)
  case (1 prev)
  then show ?case by simp
next
  case (2 prev c cs)
  show ?case
  proof (cases "uuidAt prev (c # cs)")
    case True
    define r where "r = drop 36 (c # cs)"
    define u where "u = take 36 (c # cs)"
    have s: "c # cs = u @ r" by (simp add: u_def r_def)
    have len: "36 \<le> length (c # cs)" using uuidAt_D(2)[OF True] .
    then have u: "u \<noteq> []" "last u = (c # cs) ! 35"
      by (auto simp: u_def last_conv_nth min_def)
    have w: "isWord (last u)" using uuidAt_D(5)[OF True] u(2) isHex_isWord by simp
    have "numFree True r"
      using numFree_suffix[of prev u r] "2.prems" s u(1) w by simp
    then have ih: "numFree True (uuidScan True r)"
      using "2.IH"(1)[OF True] by (simp add: r_def)
    have "uuidScan True r = [] \<or> \<not> isWord (hd (uuidScan True r))"
      using uuidScan_True_hd uuidAt_D(6)[OF True] by (simp add: r_def)
    then have "uuidScan True r = [] \<or> \<not> isDigit (hd (uuidScan True r))"
      using isDigit_isWord by blast
    then have "numFree False (uuidScan True r) = numFree True (uuidScan True r)"
      by (rule numFree_flag)
    moreover have "numFree prev (''<uuid>'' @ uuidScan True r) =
        numFree (isWord (last ''<uuid>'')) (uuidScan True r)"
      by (rule numFree_nodigits) (simp_all add: literal_chars)
    ultimately show ?thesis using True ih by (simp add: r_def literal_chars uuidScan.simps(2))
  next
    case False
    have ih: "numFree (isWord c) (uuidScan (isWord c) cs)"
      using "2.IH"(2)[OF False] "2.prems" by simp
    have "\<not> numAt prev (c # uuidScan (isWord c) cs)"
    proof (cases "isDigit c")
      case True
      have "numAt prev (c # uuidScan True cs) = numAt prev (c # cs)"
        by (rule numAt_cong) (simp_all add: True uuidScan_digits)
      then show ?thesis using "2.prems" True by (simp add: isDigit_isWord)
    next
      case nd: False
      then show ?thesis by (simp add: numAt_nondigit)
    qed
    then show ?thesis using False ih by (simp add: uuidScan.simps(2))
  qed
qed

lemma uuidFree_flag: "s = [] \<or> \<not> isHex (hd s) \<Longrightarrow> uuidFree p s = uuidFree q s"
  by (cases s) (auto simp: uuidAt_nonhex)

lemma uuidFree_suffix: "uuidFree p (u @ r) \<Longrightarrow> u \<noteq> [] \<Longrightarrow> uuidFree (isWord (last u)) r"
  by (induction u arbitrary: p) (auto split: if_splits)

lemma uuidAt_short: "length u < 36 \<Longrightarrow> \<not> isHD c \<Longrightarrow> \<not> uuidAt p (u @ c # x)"
proof
  assume a: "length u < 36" "\<not> isHD c" and m: "uuidAt p (u @ c # x)"
  have "list_all isHD (take 36 (u @ c # x))" using uuidAt_D(3)[OF m] .
  moreover have "c \<in> set (take 36 (u @ c # x))"
    using a(1) by (simp add: take_Cons')
  ultimately show False using a(2) by (simp add: list_all_iff)
qed

lemma uuidFree_short:
  "length u < 36 \<Longrightarrow> \<not> isHD c \<Longrightarrow> uuidFree p (u @ c # x) = uuidFree (isWord c) x"
proof (induction u arbitrary: p)
  case Nil
  then show ?case using uuidAt_short[of "[]" c p x] by simp
next
  case (Cons a u)
  then show ?case using uuidAt_short[of "a # u" c p x] by simp
qed

text \<open>\<open>uuidScan\<close> copies its input as long as its output shows no replacement\<close>

lemma uuidScan_copy:
  "n \<le> length (uuidScan q s) \<Longrightarrow> list_all isHD (take n (uuidScan q s)) \<Longrightarrow>
   take n (uuidScan q s) = take n s \<and>
   drop n (uuidScan q s) = uuidScan (if n = 0 then q else isWord (last (take n s))) (drop n s)"
proof (induction n arbitrary: q s)
  case 0
  then show ?case by simp
next
  case (Suc n)
  then obtain c cs where s: "s = c # cs" by (cases s) auto
  have no: "\<not> uuidAt q (c # cs)"
  proof
    assume "uuidAt q (c # cs)"
    then have "take (Suc n) (uuidScan q s) = CHR ''<'' # take n (''uuid>'' @ uuidScan True (drop 36 (c # cs)))"
      by (simp add: s uuidScan.simps(2))
    then show False using Suc.prems(2) by (simp add: isHD_def literal_chars isDash_def)
  qed
  then have run: "uuidScan q (c # cs) = c # uuidScan (isWord c) cs"
    by (simp add: uuidScan.simps(2))
  have len: "n \<le> length (uuidScan (isWord c) cs)" and hd: "list_all isHD (take n (uuidScan (isWord c) cs))"
    using Suc.prems by (simp_all add: s run)
  note ih = Suc.IH[OF len hd]
  have cs: "n \<le> length cs"
    using ih len by (metis length_take min.absorb2 min.cobounded1 take_all_iff nat_le_linear)
  have last: "last (take (Suc n) (c # cs)) = (if n = 0 then c else last (take n cs))"
    using cs by (cases n) auto
  show ?case using ih last by (auto simp: run s)
qed

lemma uuidScan_no_head: "\<not> uuidAt p (uuidScan p s)"
proof
  assume m: "uuidAt p (uuidScan p s)"
  note d = uuidAt_D[OF m]
  have c: "take 36 (uuidScan p s) = take 36 s"
    "drop 36 (uuidScan p s) = uuidScan (isWord (last (take 36 s))) (drop 36 s)"
    using uuidScan_copy[OF d(2,3)] by simp_all
  have len: "36 \<le> length s"
    using c(1) d(2) by (metis length_take min.absorb2 min.cobounded1 take_all_iff nat_le_linear)
  have ne: "take 36 s \<noteq> []" using len by auto
  have "last (take 36 s) = take 36 s ! (length (take 36 s) - 1)"
    using ne by (rule last_conv_nth)
  also have "\<dots> = take 36 s ! 35" using len by (simp add: min_def)
  also have "\<dots> = take 36 (uuidScan p s) ! 35" by (simp only: c(1))
  also have "\<dots> = uuidScan p s ! 35" by simp
  finally have w: "isWord (last (take 36 s))"
    using d(5) isHex_isWord by simp
  have tail: "drop 36 s = [] \<or> \<not> isWord (hd (drop 36 s))"
  proof (cases "drop 36 s")
    case Nil
    then show ?thesis by simp
  next
    case (Cons a r)
    then have "drop 36 (uuidScan p s) = a # uuidScan (isWord a) r"
      using c(2) w by (simp add: uuidScan_True_Cons)
    then show ?thesis using d(6) Cons by simp
  qed
  have "uuidAt p s"
    using d(1) len tail m c(1) by (auto simp: uuidAt_def split: list.splits)
  then have "uuidScan p s = ''<uuid>'' @ uuidScan True (drop 36 s)"
    using len by (cases s) (simp_all add: uuidScan.simps(2))
  then show False using d(4) by (simp add: literal_chars)
qed

lemma uuidFree_uuidScan: "uuidFree p (uuidScan p s)"
proof (induction p s rule: uuidScan.induct)
  case (1 prev)
  then show ?case by simp
next
  case (2 prev c cs)
  show ?case
  proof (cases "uuidAt prev (c # cs)")
    case True
    define r where "r = drop 36 (c # cs)"
    have ih: "uuidFree True (uuidScan True r)"
      using "2.IH"(1)[OF True] by (simp add: r_def)
    have "uuidScan True r = [] \<or> \<not> isWord (hd (uuidScan True r))"
      using uuidScan_True_hd uuidAt_D(6)[OF True] by (simp add: r_def)
    then have "uuidScan True r = [] \<or> \<not> isHex (hd (uuidScan True r))"
      using isHex_isWord by blast
    then have "uuidFree False (uuidScan True r) = uuidFree True (uuidScan True r)"
      by (rule uuidFree_flag)
    moreover have "uuidFree prev (''<uuid'' @ CHR ''>'' # uuidScan True r) =
        uuidFree (isWord CHR ''>'') (uuidScan True r)"
      by (rule uuidFree_short) (simp_all add: isHD_def isDash_def literal_chars)
    ultimately show ?thesis using True ih by (simp add: r_def literal_chars uuidScan.simps(2))
  next
    case False
    have "\<not> uuidAt prev (uuidScan prev (c # cs))" by (rule uuidScan_no_head)
    then show ?thesis using False "2.IH"(2)[OF False] by (simp add: uuidScan.simps(2))
  qed
qed

subsection \<open>The timestamp pass\<close>

lemma isQuote_eq: "isQuote c \<longleftrightarrow> c = CHR 0x22"
  by (simp add: isQuote_def)

lemma tsAt_iff:
  "tsAt s = Some (k, rest) \<longleftrightarrow>
     (\<exists>s1 s2 s3 s4.
        s = CHR 0x22 # s1 \<and> k = takeWhile (\<lambda>c. \<not> isQuote c) s1 \<and> map lowerAscii k \<in> set tsKeys \<and>
        dropWhile (\<lambda>c. \<not> isQuote c) s1 = CHR 0x22 # s2 \<and>
        dropWhile isSpace s2 = CHR '':'' # s3 \<and>
        dropWhile isSpace s3 = CHR 0x22 # s4 \<and>
        takeWhile (\<lambda>c. \<not> isQuote c) s4 \<noteq> [] \<and>
        dropWhile (\<lambda>c. \<not> isQuote c) s4 = CHR 0x22 # rest)"
proof
  assume "tsAt s = Some (k, rest)"
  then obtain q s1 s2 s3 s4 c1 c2 c3 c4 where f:
    "s = q # s1" "isQuote q" "map lowerAscii (takeWhile (\<lambda>c. \<not> isQuote c) s1) \<in> set tsKeys"
    "dropWhile (\<lambda>c. \<not> isQuote c) s1 = c1 # s2"
    "dropWhile isSpace s2 = c2 # s3" "c2 = CHR '':''" "dropWhile isSpace s3 = c3 # s4"
    "isQuote c3" "takeWhile (\<lambda>c. \<not> isQuote c) s4 \<noteq> []"
    "dropWhile (\<lambda>c. \<not> isQuote c) s4 = c4 # rest" "k = takeWhile (\<lambda>c. \<not> isQuote c) s1"
    by (auto simp: tsAt_def split: list.splits if_splits)
  have "isQuote c1" using hd_dropWhile[of "\<lambda>c. \<not> isQuote c" s1] f(4) by simp
  moreover have "isQuote c4" using hd_dropWhile[of "\<lambda>c. \<not> isQuote c" s4] f(10) by simp
  ultimately show "\<exists>s1 s2 s3 s4.
        s = CHR 0x22 # s1 \<and> k = takeWhile (\<lambda>c. \<not> isQuote c) s1 \<and> map lowerAscii k \<in> set tsKeys \<and>
        dropWhile (\<lambda>c. \<not> isQuote c) s1 = CHR 0x22 # s2 \<and>
        dropWhile isSpace s2 = CHR '':'' # s3 \<and>
        dropWhile isSpace s3 = CHR 0x22 # s4 \<and>
        takeWhile (\<lambda>c. \<not> isQuote c) s4 \<noteq> [] \<and>
        dropWhile (\<lambda>c. \<not> isQuote c) s4 = CHR 0x22 # rest"
    using f unfolding isQuote_eq by blast
next
  assume "\<exists>s1 s2 s3 s4.
        s = CHR 0x22 # s1 \<and> k = takeWhile (\<lambda>c. \<not> isQuote c) s1 \<and> map lowerAscii k \<in> set tsKeys \<and>
        dropWhile (\<lambda>c. \<not> isQuote c) s1 = CHR 0x22 # s2 \<and>
        dropWhile isSpace s2 = CHR '':'' # s3 \<and>
        dropWhile isSpace s3 = CHR 0x22 # s4 \<and>
        takeWhile (\<lambda>c. \<not> isQuote c) s4 \<noteq> [] \<and>
        dropWhile (\<lambda>c. \<not> isQuote c) s4 = CHR 0x22 # rest"
  then obtain s1 s2 s3 s4 where
        "s = CHR 0x22 # s1" "k = takeWhile (\<lambda>c. \<not> isQuote c) s1" "map lowerAscii k \<in> set tsKeys"
        "dropWhile (\<lambda>c. \<not> isQuote c) s1 = CHR 0x22 # s2"
        "dropWhile isSpace s2 = CHR '':'' # s3"
        "dropWhile isSpace s3 = CHR 0x22 # s4"
        "takeWhile (\<lambda>c. \<not> isQuote c) s4 \<noteq> []"
        "dropWhile (\<lambda>c. \<not> isQuote c) s4 = CHR 0x22 # rest"
    by blast
  then show "tsAt s = Some (k, rest)"
    by (simp add: tsAt_def isQuote_def)
qed

lemma tsAt_quote: "tsAt (c # cs) = Some x \<Longrightarrow> c = CHR 0x22"
  by (cases x) (auto simp: tsAt_iff)

lemma tsScan_None: "tsAt (c # cs) = None \<Longrightarrow> tsScan (c # cs) = c # tsScan cs"
  by (simp add: tsScan.simps(2))

lemma tsScan_nonquote: "\<not> isQuote c \<Longrightarrow> tsScan (c # cs) = c # tsScan cs"
  using tsAt_quote[of c cs] by (cases "tsAt (c # cs)") (auto simp: tsScan_None isQuote_eq)

lemma tsScan_Some:
  "tsAt (c # cs) = Some (k, rest) \<Longrightarrow>
   tsScan (c # cs) = CHR 0x22 # k @ CHR 0x22 # CHR '':'' # CHR 0x22 # ''<ts>'' @ CHR 0x22 # tsScan rest"
  by (simp add: tsScan.simps(2))

lemma tsScan_hd: "tsScan (c # cs) \<noteq> [] \<and> hd (tsScan (c # cs)) = c"
proof (cases "tsAt (c # cs)")
  case None
  then show ?thesis by (simp add: tsScan_None)
next
  case (Some x)
  then show ?thesis using tsAt_quote[OF Some] by (cases x) (simp add: tsScan_Some)
qed

lemma tsScan_Nil: "tsScan s = [] \<longleftrightarrow> s = []"
  using tsScan_hd by (cases s) auto

lemma tsScan_take1: "take (Suc 0) (tsScan s) = take (Suc 0) s"
proof (cases s)
  case Nil
  then show ?thesis by simp
next
  case (Cons c cs)
  then show ?thesis using tsScan_hd[of c cs] by (cases "tsScan (c # cs)") auto
qed

lemma tsScan_while:
  assumes "\<And>c. P c \<Longrightarrow> \<not> isQuote c"
  shows "takeWhile P (tsScan s) = takeWhile P s \<and> dropWhile P (tsScan s) = tsScan (dropWhile P s)"
proof (induction s)
  case Nil
  then show ?case by simp
next
  case (Cons c cs)
  show ?case
  proof (cases "P c")
    case True
    then have "tsScan (c # cs) = c # tsScan cs" using assms tsScan_nonquote by blast
    then show ?thesis using True Cons by simp
  next
    case False
    have "hd (tsScan (c # cs)) = c" "tsScan (c # cs) \<noteq> []" using tsScan_hd by simp_all
    then obtain r where "tsScan (c # cs) = c # r" by (cases "tsScan (c # cs)") auto
    then show ?thesis using False by simp
  qed
qed

lemma space_not_quote: "isSpace c \<Longrightarrow> \<not> isQuote c"
  by (auto simp: char_class_defs)

lemma digit_not_quote: "isDigit c \<Longrightarrow> \<not> isQuote c"
  by (auto simp: char_class_defs)

lemma isHD_not_quote: "isHD c \<Longrightarrow> \<not> isQuote c"
  by (auto simp: isHD_def char_class_defs)

lemma lower_key_char:
  "isLower (lowerAscii c) \<Longrightarrow> \<not> isDigit c \<and> \<not> isSpace c \<and> c \<noteq> CHR '':'' \<and> \<not> isQuote c"
  by (cases "isUpper c") (auto simp: char_class_defs)

lemma key_props:
  assumes "map lowerAscii k \<in> set tsKeys"
  shows "k \<noteq> []" "length k \<le> 9"
    "list_all (\<lambda>c. \<not> isDigit c \<and> \<not> isSpace c \<and> c \<noteq> CHR '':'' \<and> \<not> isQuote c) k"
proof -
  have A: "\<forall>K\<in>set tsKeys. K \<noteq> [] \<and> length K \<le> 9 \<and> list_all isLower K"
    by (simp add: tsKeys_def isLower_def inRange_def)
  have B: "map lowerAscii k \<noteq> [] \<and> length (map lowerAscii k) \<le> 9 \<and> list_all isLower (map lowerAscii k)"
    using A assms by blast
  show "k \<noteq> []" "length k \<le> 9" using B by simp_all
  have "list_all (\<lambda>c. isLower (lowerAscii c)) k" using B by (simp add: list_all_iff)
  then show "list_all (\<lambda>c. \<not> isDigit c \<and> \<not> isSpace c \<and> c \<noteq> CHR '':'' \<and> \<not> isQuote c) k"
    using lower_key_char by (simp add: list_all_iff)
qed

lemma tsAt_suffix:
  assumes "tsAt s = Some (k, rest)"
  shows "\<exists>u. u \<noteq> [] \<and> last u = CHR 0x22 \<and> s = u @ rest"
proof -
  obtain s1 s2 s3 s4 where f:
    "s = CHR 0x22 # s1"
    "dropWhile (\<lambda>c. \<not> isQuote c) s1 = CHR 0x22 # s2"
    "dropWhile isSpace s2 = CHR '':'' # s3"
    "dropWhile isSpace s3 = CHR 0x22 # s4"
    "dropWhile (\<lambda>c. \<not> isQuote c) s4 = CHR 0x22 # rest"
    using assms unfolding tsAt_iff by blast
  have e1: "s1 = takeWhile (\<lambda>c. \<not> isQuote c) s1 @ CHR 0x22 # s2"
    using takeWhile_dropWhile_id[of "\<lambda>c. \<not> isQuote c" s1] f(2) by simp
  have e2: "s2 = takeWhile isSpace s2 @ CHR '':'' # s3"
    using takeWhile_dropWhile_id[of isSpace s2] f(3) by simp
  have e3: "s3 = takeWhile isSpace s3 @ CHR 0x22 # s4"
    using takeWhile_dropWhile_id[of isSpace s3] f(4) by simp
  have e4: "s4 = takeWhile (\<lambda>c. \<not> isQuote c) s4 @ CHR 0x22 # rest"
    using takeWhile_dropWhile_id[of "\<lambda>c. \<not> isQuote c" s4] f(5) by simp
  define u where "u = CHR 0x22 # takeWhile (\<lambda>c. \<not> isQuote c) s1 @ CHR 0x22 # takeWhile isSpace s2 @
      CHR '':'' # takeWhile isSpace s3 @ CHR 0x22 # takeWhile (\<lambda>c. \<not> isQuote c) s4 @ [CHR 0x22]"
  have "s = u @ rest"
    unfolding u_def by (subst f(1), subst e1, subst e2, subst e3, subst e4) simp
  moreover have "u \<noteq> []" "last u = CHR 0x22" by (simp_all add: u_def)
  ultimately show ?thesis by blast
qed

lemma tsScan_copy:
  "n \<le> length (tsScan s) \<Longrightarrow> list_all (\<lambda>c. \<not> isQuote c) (take n (tsScan s)) \<Longrightarrow>
   take n (tsScan s) = take n s \<and> drop n (tsScan s) = tsScan (drop n s)"
proof (induction n arbitrary: s)
  case 0
  then show ?case by simp
next
  case (Suc n)
  then obtain c cs where s: "s = c # cs" by (cases s) auto
  obtain r where r: "tsScan (c # cs) = c # r"
    using tsScan_hd[of c cs] by (cases "tsScan (c # cs)") auto
  have "\<not> isQuote c" using Suc.prems(2) by (simp add: s r)
  then have run: "tsScan (c # cs) = c # tsScan cs" by (rule tsScan_nonquote)
  show ?case using Suc.IH[of cs] Suc.prems by (simp add: s run)
qed

lemma uuidAt_cong:
  "take 36 s = take 36 t \<Longrightarrow> take (Suc 0) (drop 36 s) = take (Suc 0) (drop 36 t) \<Longrightarrow>
   uuidAt p s = uuidAt p t"
proof -
  assume a: "take 36 s = take 36 t"
    and b: "take (Suc 0) (drop 36 s) = take (Suc 0) (drop 36 t)"
  have one: "(case xs of [] \<Rightarrow> True | c # _ \<Rightarrow> \<not> isWord c) =
      (case take (Suc 0) xs of [] \<Rightarrow> True | c # _ \<Rightarrow> \<not> isWord c)" for xs :: string
    by (cases xs) simp_all
  have c: "(case drop 36 s of [] \<Rightarrow> True | c # _ \<Rightarrow> \<not> isWord c) =
        (case drop 36 t of [] \<Rightarrow> True | c # _ \<Rightarrow> \<not> isWord c)"
    by (simp only: one[of "drop 36 s"] one[of "drop 36 t"] b)
  have "length (take 36 s) = length (take 36 t)" using a by simp
  then have l: "36 \<le> length s \<longleftrightarrow> 36 \<le> length t" by (simp add: min_def split: if_splits)
  show ?thesis unfolding uuidAt_def using a c l by simp
qed

lemma numAt_tsScan: "numAt p (tsScan s) = numAt p s"
proof (rule numAt_cong)
  show "takeWhile isDigit (tsScan s) = takeWhile isDigit s"
    using tsScan_while[of isDigit s] digit_not_quote by blast
  have "dropWhile isDigit (tsScan s) = tsScan (dropWhile isDigit s)"
    using tsScan_while[of isDigit s] digit_not_quote by blast
  then show "take (Suc 0) (dropWhile isDigit (tsScan s)) = take (Suc 0) (dropWhile isDigit s)"
    by (simp add: tsScan_take1)
qed

lemma uuidAt_tsScan: "uuidAt p (tsScan s) \<Longrightarrow> uuidAt p s"
proof -
  assume m: "uuidAt p (tsScan s)"
  note d = uuidAt_D[OF m]
  have "list_all (\<lambda>c. \<not> isQuote c) (take 36 (tsScan s))"
    using d(3) isHD_not_quote by (simp add: list_all_iff)
  then have c: "take 36 (tsScan s) = take 36 s" "drop 36 (tsScan s) = tsScan (drop 36 s)"
    using tsScan_copy[OF d(2)] by simp_all
  have "uuidAt p (tsScan s) = uuidAt p s"
    by (rule uuidAt_cong) (simp_all add: c tsScan_take1)
  then show ?thesis using m by simp
qed

lemma numFree_tsScan: "numFree p s \<Longrightarrow> numFree p (tsScan s)"
proof (induction s arbitrary: p rule: tsScan.induct)
  case 1
  then show ?case by simp
next
  case (2 c cs)
  show ?case
  proof (cases "tsAt (c # cs)")
    case None
    have run: "tsScan (c # cs) = c # tsScan cs" using None by (rule tsScan_None)
    have "\<not> numAt p (c # cs)" "numFree (isWord c) cs" using "2.prems" by simp_all
    then have "\<not> numAt p (tsScan (c # cs))" "numFree (isWord c) (tsScan cs)"
      using "2.IH"(1)[OF None] by (simp_all add: numAt_tsScan)
    then show ?thesis by (simp add: run)
  next
    case (Some x)
    obtain k rest where x: "x = (k, rest)" by (cases x)
    have m: "tsAt (c # cs) = Some (k, rest)" using Some x by simp
    obtain u where u: "u \<noteq> []" "last u = CHR 0x22" "c # cs = u @ rest"
      using tsAt_suffix[OF m] by blast
    have "numFree (isWord (last u)) rest"
      using "2.prems" u(1) unfolding u(3) by (rule numFree_suffix)
    then have "numFree False rest" by (simp add: u(2) literal_chars)
    then have ih: "numFree False (tsScan rest)" using "2.IH"(2)[OF Some x[symmetric]] by simp
    have key: "map lowerAscii k \<in> set tsKeys" using m unfolding tsAt_iff by blast
    define r where "r = CHR 0x22 # k @ CHR 0x22 # CHR '':'' # CHR 0x22 # ''<ts>'' @ [CHR 0x22]"
    have run: "tsScan (c # cs) = r @ tsScan rest" using tsScan_Some[OF m] by (simp add: r_def)
    have nd: "list_all (\<lambda>c. \<not> isDigit c) r"
      using key_props(3)[OF key] by (simp add: r_def literal_chars list_all_iff)
    have "numFree p (r @ tsScan rest) = numFree (isWord (last r)) (tsScan rest)"
      using nd by (rule numFree_nodigits) (simp add: r_def)
    then show ?thesis using ih by (simp add: run) (simp add: r_def literal_chars)
  qed
qed

lemma uuidFree_tsScan: "uuidFree p s \<Longrightarrow> uuidFree p (tsScan s)"
proof (induction s arbitrary: p rule: tsScan.induct)
  case 1
  then show ?case by simp
next
  case (2 c cs)
  show ?case
  proof (cases "tsAt (c # cs)")
    case None
    have run: "tsScan (c # cs) = c # tsScan cs" using None by (rule tsScan_None)
    have "\<not> uuidAt p (c # cs)" "uuidFree (isWord c) cs" using "2.prems" by simp_all
    then have "\<not> uuidAt p (tsScan (c # cs))" "uuidFree (isWord c) (tsScan cs)"
      using "2.IH"(1)[OF None] uuidAt_tsScan by blast+
    then show ?thesis by (simp add: run)
  next
    case (Some x)
    obtain k rest where x: "x = (k, rest)" by (cases x)
    have m: "tsAt (c # cs) = Some (k, rest)" using Some x by simp
    obtain u where u: "u \<noteq> []" "last u = CHR 0x22" "c # cs = u @ rest"
      using tsAt_suffix[OF m] by blast
    have "uuidFree (isWord (last u)) rest"
      using "2.prems" u(1) unfolding u(3) by (rule uuidFree_suffix)
    then have "uuidFree False rest" by (simp add: u(2) literal_chars)
    then have ih: "uuidFree False (tsScan rest)" using "2.IH"(2)[OF Some x[symmetric]] by simp
    have key: "map lowerAscii k \<in> set tsKeys" using m unfolding tsAt_iff by blast
    define r where "r = CHR 0x22 # k @ CHR 0x22 # CHR '':'' # CHR 0x22 # ''<ts>''"
    have run: "tsScan (c # cs) = r @ CHR 0x22 # tsScan rest" using tsScan_Some[OF m] by (simp add: r_def)
    have len: "length r < 36" using key_props(2)[OF key] by (simp add: r_def)
    have "\<not> isHD (CHR 0x22)" by (simp add: isHD_def literal_chars isDash_def)
    with len have "uuidFree p (r @ CHR 0x22 # tsScan rest) = uuidFree (isWord (CHR 0x22)) (tsScan rest)"
      by (rule uuidFree_short)
    then show ?thesis using ih by (simp add: run literal_chars)
  qed
qed

lemma tsAt_replacement:
  assumes key: "map lowerAscii k \<in> set tsKeys"
  shows "tsAt (CHR 0x22 # k @ CHR 0x22 # CHR '':'' # CHR 0x22 # ''<ts>'' @ CHR 0x22 # x) = Some (k, x)"
proof -
  have nq: "\<And>c. c \<in> set k \<Longrightarrow> \<not> isQuote c"
    using key_props(3)[OF key] by (simp add: list_all_iff)
  have t1: "takeWhile (\<lambda>c. \<not> isQuote c) (k @ CHR 0x22 # y) = k" for y
    using nq by (simp add: takeWhile_append2 literal_chars)
  have d1: "dropWhile (\<lambda>c. \<not> isQuote c) (k @ CHR 0x22 # y) = CHR 0x22 # y" for y
    using nq by (simp add: dropWhile_append2 literal_chars)
  show ?thesis
    unfolding tsAt_iff
    apply (rule exI[of _ "k @ CHR 0x22 # CHR '':'' # CHR 0x22 # ''<ts>'' @ CHR 0x22 # x"])
    apply (rule exI[of _ "CHR '':'' # CHR 0x22 # ''<ts>'' @ CHR 0x22 # x"])
    apply (rule exI[of _ "CHR 0x22 # ''<ts>'' @ CHR 0x22 # x"])
    apply (rule exI[of _ "''<ts>'' @ CHR 0x22 # x"])
    using key by (simp add: t1 d1 literal_chars)
qed

lemma tsScan_Cons_back: "tsScan x = a # t \<Longrightarrow> \<exists>y. x = a # y"
proof (cases x)
  case Nil
  assume "tsScan x = a # t"
  then show ?thesis using Nil by simp
next
  case (Cons b y)
  assume "tsScan x = a # t"
  then show ?thesis using Cons tsScan_hd[of b y] by auto
qed

lemma tsAt_tsScan_back:
  assumes m: "tsAt (tsScan s) = Some (k, r)"
  shows "tsAt s \<noteq> None"
proof
  assume none: "tsAt s = None"
  let ?nq = "\<lambda>c. \<not> isQuote c"
  have wq: "takeWhile ?nq (tsScan x) = takeWhile ?nq x" "dropWhile ?nq (tsScan x) = tsScan (dropWhile ?nq x)" for x
    using tsScan_while[of ?nq x] by blast+
  have ws: "takeWhile isSpace (tsScan x) = takeWhile isSpace x" "dropWhile isSpace (tsScan x) = tsScan (dropWhile isSpace x)" for x
    using tsScan_while[of isSpace x] space_not_quote by blast+
  note bk = tsScan_Cons_back
  obtain t1 t2 t3 t4 where t:
    "tsScan s = CHR 0x22 # t1" "k = takeWhile ?nq t1" "map lowerAscii k \<in> set tsKeys"
    "dropWhile ?nq t1 = CHR 0x22 # t2"
    "dropWhile isSpace t2 = CHR '':'' # t3"
    "dropWhile isSpace t3 = CHR 0x22 # t4"
    "takeWhile ?nq t4 \<noteq> []"
    "dropWhile ?nq t4 = CHR 0x22 # r"
    using m unfolding tsAt_iff by blast
  obtain s1 where s: "s = CHR 0x22 # s1" using bk[OF t(1)] by blast
  have t1: "t1 = tsScan s1" using t(1) none tsScan_None[of "CHR 0x22" s1] by (simp add: s)
  have "tsScan (dropWhile ?nq s1) = CHR 0x22 # t2" using t(4) by (simp add: t1 wq)
  then obtain s2 where d1: "dropWhile ?nq s1 = CHR 0x22 # s2" and e2: "tsScan (CHR 0x22 # s2) = CHR 0x22 # t2"
    using bk by metis
  have t2: "t2 = tsScan s2"
  proof (cases "tsAt (CHR 0x22 # s2)")
    case None
    then show ?thesis using e2 by (simp add: tsScan_None)
  next
    case (Some x)
    obtain k2 r2 where x: "x = (k2, r2)" by (cases x)
    have m2: "tsAt (CHR 0x22 # s2) = Some (k2, r2)" using Some x by simp
    have key2: "map lowerAscii k2 \<in> set tsKeys" using m2 unfolding tsAt_iff by blast
    obtain a k2' where k2: "k2 = a # k2'" using key_props(1)[OF key2] by (cases k2) auto
    have a: "\<not> isSpace a" "a \<noteq> CHR '':''" using key_props(3)[OF key2] by (simp_all add: k2)
    have "t2 = a # k2' @ CHR 0x22 # CHR '':'' # CHR 0x22 # ''<ts>'' @ CHR 0x22 # tsScan r2"
      using e2 tsScan_Some[OF m2] by (simp add: k2)
    then have "dropWhile isSpace t2 = a # k2' @ CHR 0x22 # CHR '':'' # CHR 0x22 # ''<ts>'' @ CHR 0x22 # tsScan r2"
      using a(1) by simp
    then show ?thesis using t(5) a(2) by simp
  qed
  have "tsScan (dropWhile isSpace s2) = CHR '':'' # t3" using t(5) by (simp add: t2 ws)
  then obtain s3 where d2: "dropWhile isSpace s2 = CHR '':'' # s3" and e3: "tsScan (CHR '':'' # s3) = CHR '':'' # t3"
    using bk by metis
  have t3: "t3 = tsScan s3" using e3 by (simp add: tsScan_nonquote literal_chars)
  have "tsScan (dropWhile isSpace s3) = CHR 0x22 # t4" using t(6) by (simp add: t3 ws)
  then obtain s4 where d3: "dropWhile isSpace s3 = CHR 0x22 # s4" and e4: "tsScan (CHR 0x22 # s4) = CHR 0x22 # t4"
    using bk by metis
  have "\<exists>r'. takeWhile ?nq s4 \<noteq> [] \<and> dropWhile ?nq s4 = CHR 0x22 # r'"
  proof (cases "tsAt (CHR 0x22 # s4)")
    case None
    then have t4: "t4 = tsScan s4" using e4 by (simp add: tsScan_None)
    have "tsScan (dropWhile ?nq s4) = CHR 0x22 # r" using t(8) by (simp add: t4 wq)
    then obtain s5 where "dropWhile ?nq s4 = CHR 0x22 # s5" using bk by metis
    moreover have "takeWhile ?nq s4 \<noteq> []" using t(7) by (simp add: t4 wq)
    ultimately show ?thesis by blast
  next
    case (Some x)
    obtain k4 r4 where x: "x = (k4, r4)" by (cases x)
    have m4: "tsAt (CHR 0x22 # s4) = Some (k4, r4)" using Some x by simp
    obtain u1 u2 where u: "k4 = takeWhile ?nq u1" "CHR 0x22 # s4 = CHR 0x22 # u1" "map lowerAscii k4 \<in> set tsKeys"
      "dropWhile ?nq u1 = CHR 0x22 # u2"
      using m4 unfolding tsAt_iff by blast
    have "takeWhile ?nq s4 \<noteq> []" using key_props(1)[OF u(3)] u(1,2) by simp
    moreover have "dropWhile ?nq s4 = CHR 0x22 # u2" using u(2,4) by simp
    ultimately show ?thesis by blast
  qed
  then obtain r' where v: "takeWhile ?nq s4 \<noteq> []" "dropWhile ?nq s4 = CHR 0x22 # r'" by blast
  have k: "k = takeWhile ?nq s1" using t(2) by (simp add: t1 wq)
  have "tsAt s = Some (k, r')"
    unfolding tsAt_iff using s k t(3) d1 d2 d3 v by blast
  then show False using none by simp
qed

lemma tsScan_idem: "tsScan (tsScan s) = tsScan s"
proof (induction s rule: tsScan.induct)
  case 1
  then show ?case by simp
next
  case (2 c cs)
  show ?case
  proof (cases "tsAt (c # cs)")
    case None
    have run: "tsScan (c # cs) = c # tsScan cs" using None by (rule tsScan_None)
    have "tsAt (c # tsScan cs) = None"
    proof (cases "tsAt (c # tsScan cs)")
      case (Some x)
      obtain k r where "x = (k, r)" by (cases x)
      then have "tsAt (tsScan (c # cs)) = Some (k, r)" using Some by (simp add: run)
      then show ?thesis using tsAt_tsScan_back None by blast
    qed simp
    then have "tsScan (c # tsScan cs) = c # tsScan (tsScan cs)" by (rule tsScan_None)
    then show ?thesis using "2.IH"(1)[OF None] by (simp add: run)
  next
    case (Some x)
    obtain k rest where x: "x = (k, rest)" by (cases x)
    have m: "tsAt (c # cs) = Some (k, rest)" using Some x by simp
    have key: "map lowerAscii k \<in> set tsKeys" using m unfolding tsAt_iff by blast
    have run: "tsScan (c # cs) = CHR 0x22 # k @ CHR 0x22 # CHR '':'' # CHR 0x22 # ''<ts>'' @ CHR 0x22 # tsScan rest"
      using m by (rule tsScan_Some)
    have "tsScan (CHR 0x22 # k @ CHR 0x22 # CHR '':'' # CHR 0x22 # ''<ts>'' @ CHR 0x22 # tsScan rest)
        = CHR 0x22 # k @ CHR 0x22 # CHR '':'' # CHR 0x22 # ''<ts>'' @ CHR 0x22 # tsScan (tsScan rest)"
      using tsAt_replacement[OF key] by (rule tsScan_Some)
    then show ?thesis using "2.IH"(2)[OF Some x[symmetric]] by (simp only: run)
  qed
qed

lemma redactVolatile_numFree: "numFree False (redactVolatile x)"
  unfolding redactVolatile_def
  by (intro numFree_tsScan numFree_uuidScan numFree_numScan)

lemma redactVolatile_uuidFree: "uuidFree False (redactVolatile x)"
  unfolding redactVolatile_def
  by (intro uuidFree_tsScan uuidFree_uuidScan)

text \<open>
  Claim C9. The response normalizer is idempotent: for every text \<open>x\<close>, normalizing the
  normalized text gives the normalized text again. The placeholders \<open><num>\<close>, \<open><uuid>\<close> and
  \<open>"key":"<ts>"\<close> contain nothing that a later or a second pass would replace by something
  else, and no pass creates a match of an earlier one.
\<close>

theorem redactVolatile_idempotent: "redactVolatile (redactVolatile x) = redactVolatile x"
proof -
  have "numScan False (redactVolatile x) = redactVolatile x"
    using redactVolatile_numFree by (rule numFree_fixed)
  moreover have "uuidScan False (redactVolatile x) = redactVolatile x"
    using redactVolatile_uuidFree by (rule uuidFree_fixed)
  moreover have "tsScan (redactVolatile x) = redactVolatile x"
    by (simp add: redactVolatile_def tsScan_idem)
  ultimately show ?thesis by (simp add: redactVolatile_def[of "redactVolatile x"])
qed


end
